theory Spec2Isabelle
  imports Main "HOL-Library.Word" "HOL-Library.Multiset"
begin

unbundle bit_operations_syntax

section \<open>mergecap: merging the PCAP files of a directory\<close>

text \<open>
  A shallow embedding of \<^verbatim>\<open>mergecap.cpp\<close>. The C++ code is a single translation unit:
  the class \<^verbatim>\<open>pcap::files\<close> (a growable array of \<^verbatim>\<open>pcap::file\<close>), the functions
  \<^verbatim>\<open>get_first_timestamp\<close> and \<^verbatim>\<open>copy_file\<close>, and \<^verbatim>\<open>main\<close>. Everything the program
  obtains from the operating system (directory listing, file status, file contents, the
  results of \<^verbatim>\<open>realloc\<close>, \<^verbatim>\<open>strdup\<close>, \<^verbatim>\<open>ftruncate\<close>, \<^verbatim>\<open>mmap\<close> and \<^verbatim>\<open>write\<close>) is an
  explicit argument of the model.
\<close>

subsection \<open>Machine types and PCAP constants\<close>

type_synonym byte = "8 word"
type_synonym u16 = "16 word"
type_synonym u32 = "32 word"
type_synonym u64 = "64 word"

text \<open>\<^verbatim>\<open>enum class magic : uint32_t\<close>, compared through its underlying value.\<close>

definition microseconds :: u32 where
  "microseconds = 0xa1b2c3d4"

definition nanoseconds :: u32 where
  "nanoseconds = 0xa1b23c4d"

definition pcap_version_major :: u16 where
  "pcap_version_major = 2"

definition pcap_version_minor :: u16 where
  "pcap_version_minor = 4"

record pcap_file_header =
  magic :: u32
  version_major :: u16
  version_minor :: u16
  thiszone :: u32
  sigfigs :: u32
  snaplen :: u32
  linktype :: u32

record timeval =
  tv_sec :: u32
  tv_usec :: u32

record pcap_pkthdr =
  ts :: timeval
  caplen :: u32
  len :: u32

definition sizeof_pcap_file_header :: nat where
  "sizeof_pcap_file_header = 24"

definition sizeof_pcap_pkthdr :: nat where
  "sizeof_pcap_pkthdr = 16"

definition minimum_size :: nat where
  "minimum_size = sizeof_pcap_file_header + sizeof_pcap_pkthdr"

text \<open>
  The code overlays the structs on a byte buffer (\<^verbatim>\<open>reinterpret_cast\<close>), so every field
  is read in the byte order of the host, which is a parameter here.
\<close>

datatype endian = LittleEndian | BigEndian

definition load :: "endian \<Rightarrow> byte list \<Rightarrow> 'a::len word" where
  "load e bs =
     foldl (\<lambda>acc b. push_bit 8 acc OR ucast b) 0
       (case e of LittleEndian \<Rightarrow> rev bs | BigEndian \<Rightarrow> bs)"

definition field :: "nat \<Rightarrow> nat \<Rightarrow> byte list \<Rightarrow> byte list" where
  "field off n buf = take n (drop off buf)"

definition pcap_file_header_at :: "endian \<Rightarrow> byte list \<Rightarrow> pcap_file_header" where
  "pcap_file_header_at e buf =
     \<lparr>magic = load e (field 0 4 buf),
      version_major = load e (field 4 2 buf),
      version_minor = load e (field 6 2 buf),
      thiszone = load e (field 8 4 buf),
      sigfigs = load e (field 12 4 buf),
      snaplen = load e (field 16 4 buf),
      linktype = load e (field 20 4 buf)\<rparr>"

definition pcap_pkthdr_at :: "endian \<Rightarrow> byte list \<Rightarrow> pcap_pkthdr" where
  "pcap_pkthdr_at e buf =
     \<lparr>ts = \<lparr>tv_sec = load e (field 0 4 buf), tv_usec = load e (field 4 4 buf)\<rparr>,
      caplen = load e (field 8 4 buf),
      len = load e (field 12 4 buf)\<rparr>"

subsection \<open>The class \<^verbatim>\<open>pcap::files\<close>\<close>

record pcap_file =
  filename :: string
  filesize :: u64
  timestamp :: u64

text \<open>
  \<^verbatim>\<open>_M_files\<close> is a heap block of \<^verbatim>\<open>_M_size\<close> elements, here a list of slots. A slot that
  was never written holds \<open>None\<close>: \<^verbatim>\<open>realloc\<close> does not initialise the memory it adds.
  The null pointer is the empty block. The counts are \<^verbatim>\<open>size_t\<close>; they are bounded by the
  memory of the process and are natural numbers here.
\<close>

record files =
  M_files :: "pcap_file option list"
  M_size :: nat
  M_used :: nat

definition files_init :: files where
  "files_init = \<lparr>M_files = [], M_size = 0, M_used = 0\<rparr>"

text \<open>
  The heap: the outcomes of the successive allocation calls (\<^verbatim>\<open>realloc\<close>, \<^verbatim>\<open>strdup\<close>),
  \<open>False\<close> for a null result. Calls beyond the end of the list succeed.
\<close>

type_synonym heap = "bool list"

fun alloc :: "heap \<Rightarrow> bool \<times> heap" where
  "alloc [] = (True, [])"
| "alloc (ok # h) = (ok, h)"

definition realloc :: "pcap_file option list \<Rightarrow> nat \<Rightarrow> pcap_file option list" where
  "realloc block n = take n block @ replicate (n - length block) None"

definition files_allocate :: "files \<Rightarrow> heap \<Rightarrow> bool \<times> files \<times> heap" where
  "files_allocate fs h =
     (if M_used fs < M_size fs then (True, fs, h)
      else
        (let size = (if M_size fs > 0 then M_size fs * 2 else 1024) in
         case alloc h of
           (True, h') \<Rightarrow> (True, fs\<lparr>M_files := realloc (M_files fs) size, M_size := size\<rparr>, h')
         | (False, h') \<Rightarrow> (False, fs, h')))"

definition files_add :: "files \<Rightarrow> heap \<Rightarrow> string \<Rightarrow> u64 \<Rightarrow> u64 \<Rightarrow> bool \<times> files \<times> heap" where
  "files_add fs h name fsize tstamp =
     (case files_allocate fs h of
        (True, fs1, h1) \<Rightarrow>
          (case alloc h1 of
             (True, h2) \<Rightarrow>
               (True,
                fs1\<lparr>M_files := (M_files fs1)
                       [M_used fs1 := Some \<lparr>filename = name, filesize = fsize, timestamp = tstamp\<rparr>],
                    M_used := M_used fs1 + 1\<rparr>,
                h2)
           | (False, h2) \<Rightarrow> (False, fs1, h2))
      | (False, fs1, h1) \<Rightarrow> (False, fs1, h1))"

text \<open>
  \<^verbatim>\<open>get\<close> returns a pointer into the block or the null pointer. The result is the
  pointee: \<open>Some f\<close> for a pointer to a slot holding \<open>f\<close>, \<open>None\<close> for \<^verbatim>\<open>nullptr\<close>.
\<close>

definition files_get :: "files \<Rightarrow> nat \<Rightarrow> pcap_file option" where
  "files_get fs idx = (if idx < M_used fs then M_files fs ! idx else None)"

definition files_compare :: "pcap_file \<Rightarrow> pcap_file \<Rightarrow> int" where
  "files_compare f1 f2 =
     (if timestamp f1 < timestamp f2 then - 1
      else if timestamp f1 > timestamp f2 then 1
      else 0)"

text \<open>
  \<^verbatim>\<open>qsort\<close> belongs to the C library, not to this program. It is a parameter of the
  model, constrained by its contract only: the result is a rearrangement of the array
  that ascends along the comparison function. Nothing is fixed about elements that
  compare equal.
\<close>

type_synonym qsort_fn = "(pcap_file \<Rightarrow> pcap_file \<Rightarrow> int) \<Rightarrow> pcap_file list \<Rightarrow> pcap_file list"

definition qsort_contract :: "qsort_fn \<Rightarrow> bool" where
  "qsort_contract qs \<longleftrightarrow>
     (\<forall>xs. mset (qs files_compare xs) = mset xs \<and>
           sorted_wrt (\<lambda>a b. files_compare a b \<le> 0) (qs files_compare xs))"

definition files_sort :: "qsort_fn \<Rightarrow> files \<Rightarrow> files" where
  "files_sort qs fs =
     fs\<lparr>M_files :=
          map Some (qs files_compare (map the (take (M_used fs) (M_files fs))))
          @ drop (M_used fs) (M_files fs)\<rparr>"

text \<open>A sorting function that meets the contract: insertion along the comparison.\<close>

fun insert_cmp :: "(pcap_file \<Rightarrow> pcap_file \<Rightarrow> int) \<Rightarrow> pcap_file \<Rightarrow> pcap_file list \<Rightarrow> pcap_file list" where
  "insert_cmp cmp x [] = [x]"
| "insert_cmp cmp x (y # ys) =
     (if cmp x y \<le> 0 then x # y # ys else y # insert_cmp cmp x ys)"

fun insertion_qsort :: qsort_fn where
  "insertion_qsort cmp [] = []"
| "insertion_qsort cmp (x # xs) = insert_cmp cmp x (insertion_qsort cmp xs)"

text \<open>The entries stored so far, in array order.\<close>

definition entries :: "files \<Rightarrow> pcap_file list" where
  "entries fs = map the (take (M_used fs) (M_files fs))"

definition files_inv :: "files \<Rightarrow> bool" where
  "files_inv fs \<longleftrightarrow>
     M_size fs = length (M_files fs) \<and> M_used fs \<le> M_size fs \<and>
     list_all (\<lambda>s. s \<noteq> None) (take (M_used fs) (M_files fs))"

text \<open>
  The states of the Input Set: the empty set, then any sequence of \<^verbatim>\<open>add\<close> and \<^verbatim>\<open>sort\<close>
  calls. The second argument records the entries that were added, in array order.
\<close>

inductive reachable :: "files \<Rightarrow> pcap_file list \<Rightarrow> bool" where
  r_init: "reachable files_init []"
| r_add: "reachable fs es \<Longrightarrow> files_add fs h name fsize tstamp = (True, fs', h') \<Longrightarrow>
     reachable fs' (es @ [\<lparr>filename = name, filesize = fsize, timestamp = tstamp\<rparr>])"
| r_add_failed: "reachable fs es \<Longrightarrow> files_add fs h name fsize tstamp = (False, fs', h') \<Longrightarrow>
     reachable fs' es"
| r_sort: "reachable fs es \<Longrightarrow> qsort_contract qs \<Longrightarrow>
     reachable (files_sort qs fs) (qs files_compare es)"

subsection \<open>The operating system\<close>

text \<open>
  A file as the system calls of the program see it. \<open>i_data\<close> is the contents, so
  \<^verbatim>\<open>st_size\<close> is its length. The remaining fields say how the calls on this file end:
  whether \<^verbatim>\<open>open\<close> succeeds (in \<^verbatim>\<open>get_first_timestamp\<close> and in \<^verbatim>\<open>copy_file\<close>), how many
  bytes the \<^verbatim>\<open>read\<close> of the probe delivers at most (\<open>None\<close>: it returns -1), and whether
  \<^verbatim>\<open>mmap\<close> succeeds.
\<close>

record inode =
  i_reg :: bool
  i_data :: "byte list"
  i_open_probe :: bool
  i_read_max :: "nat option"
  i_open_copy :: bool
  i_mmap_ok :: bool

datatype errno = EINTR | EAGAIN | EBADF | EDQUOT | EFBIG | EIO | ENOSPC | EPIPE

text \<open>
  What the kernel does with one \<^verbatim>\<open>write\<close> call: it takes at most so many bytes of the
  request (0: it takes none and returns 0), or it fails with an error number.
\<close>

datatype write_outcome = Accepts nat | Fails errno

text \<open>
  The surroundings of one run. \<open>w_isdir\<close>: \<^verbatim>\<open>stat(argv[1])\<close> succeeds and shows a
  directory. \<open>w_creat_ok\<close>: the output file can be opened with
  \<^verbatim>\<open>O_CREAT | O_TRUNC | O_WRONLY\<close>. \<open>w_opendir_ok\<close>: \<^verbatim>\<open>opendir(argv[1])\<close> succeeds.
  \<open>w_readdir\<close> lists the names that \<^verbatim>\<open>readdir\<close> returns, in its order. \<open>w_fs\<close> is the
  file system, by path name, as the program sees it once the output file exists and is
  empty; no other process changes it during the run. \<open>w_heap\<close>, \<open>w_ftruncate_ok\<close> and
  \<open>w_writes\<close> give the outcomes of the allocations, of \<^verbatim>\<open>ftruncate\<close> and of the
  successive \<^verbatim>\<open>write\<close> calls.
\<close>

record world =
  w_endian :: endian
  w_isdir :: bool
  w_creat_ok :: bool
  w_opendir_ok :: bool
  w_readdir :: "string list"
  w_fs :: "string \<Rightarrow> inode option"
  w_heap :: heap
  w_ftruncate_ok :: bool
  w_writes :: "write_outcome list"

definition stat :: "world \<Rightarrow> string \<Rightarrow> inode option" where
  "stat w pathname = w_fs w pathname"

definition S_ISREG :: "inode \<Rightarrow> bool" where
  "S_ISREG sbuf = i_reg sbuf"

definition st_size :: "inode \<Rightarrow> int" where
  "st_size sbuf = int (length (i_data sbuf))"

text \<open>\<^verbatim>\<open>read(fd, buf, count)\<close> on a file just opened: the return value and the bytes stored.\<close>

definition sys_read :: "inode \<Rightarrow> nat \<Rightarrow> int \<times> byte list" where
  "sys_read ino cnt =
     (case i_read_max ino of
        None \<Rightarrow> (- 1, [])
      | Some k \<Rightarrow> (let bs = take (min k cnt) (i_data ino) in (int (length bs), bs)))"

text \<open>
  The descriptor of the output file: the contents of the file and the file offset.
  A \<^verbatim>\<open>write\<close> stores at the offset, over what is there, and extends the file when it
  goes past the end; a transfer of no bytes changes nothing.
\<close>

record outfd =
  o_data :: "byte list"
  o_pos :: nat

definition store :: "outfd \<Rightarrow> byte list \<Rightarrow> outfd" where
  "store out bs =
     (if bs = [] then out
      else
        \<lparr>o_data = take (o_pos out) (o_data out @ replicate (o_pos out - length (o_data out)) 0)
                  @ bs @ drop (o_pos out + length bs) (o_data out),
         o_pos = o_pos out + length bs\<rparr>)"

text \<open>The \<^verbatim>\<open>ssize_t\<close> result of \<^verbatim>\<open>write\<close>: a count, or -1 with \<^verbatim>\<open>errno\<close> set.\<close>

datatype ssize_t = Ret nat | Err errno

definition sys_write :: "write_outcome \<Rightarrow> outfd \<Rightarrow> byte list \<Rightarrow> nat \<Rightarrow> ssize_t \<times> outfd" where
  "sys_write oc out src cnt =
     (case oc of
        Accepts n \<Rightarrow> (let bs = take (min n cnt) src in (Ret (length bs), store out bs))
      | Fails e \<Rightarrow> (Err e, out))"

text \<open>\<^verbatim>\<open>ftruncate(fd, length)\<close>; the length is an \<^verbatim>\<open>off_t\<close>, a negative one is refused.\<close>

definition ftruncate :: "bool \<Rightarrow> outfd \<Rightarrow> u64 \<Rightarrow> outfd option" where
  "ftruncate ok out n =
     (if ok \<and> 0 \<le> sint n
      then Some (out\<lparr>o_data := take (unat n) (o_data out)
                                @ replicate (unat n - length (o_data out)) 0\<rparr>)
      else None)"

text \<open>
  \<^verbatim>\<open>mmap(nullptr, filesize, PROT_READ, MAP_SHARED, infd, 0)\<close>: the first \<^verbatim>\<open>filesize\<close>
  bytes of the file; an empty mapping is refused.
\<close>

definition mmap :: "inode \<Rightarrow> u64 \<Rightarrow> byte list option" where
  "mmap ino n =
     (if i_mmap_ok ino \<and> n \<noteq> 0 then Some (take (unat n) (i_data ino)) else None)"

subsection \<open>\<^verbatim>\<open>get_first_timestamp\<close>\<close>

definition get_first_timestamp :: "world \<Rightarrow> string \<Rightarrow> u64 option" where
  "get_first_timestamp w name =
     (case w_fs w name of
        None \<Rightarrow> None
      | Some ino \<Rightarrow>
          if i_open_probe ino then
            (case sys_read ino minimum_size of
               (ret, buf) \<Rightarrow>
                 if ret = int minimum_size then
                   (let filehdr = pcap_file_header_at (w_endian w) buf in
                    if (magic filehdr = microseconds \<or> magic filehdr = nanoseconds) \<and>
                       version_major filehdr = pcap_version_major \<and>
                       version_minor filehdr = pcap_version_minor
                    then
                      (let pkthdr = pcap_pkthdr_at (w_endian w)
                                      (drop sizeof_pcap_file_header buf) in
                       Some (ucast (tv_sec (ts pkthdr)) * 1000000
                             + ucast (tv_usec (ts pkthdr))))
                    else None)
                 else None)
          else None)"

subsection \<open>\<^verbatim>\<open>copy_file\<close>\<close>

text \<open>
  One pass through the body of the \<^verbatim>\<open>do ... while (true)\<close> loop, after \<^verbatim>\<open>write\<close> has
  returned: the function returns, or the loop goes on with a cursor and a count.
\<close>

datatype pass = Return bool | Again nat u64

definition loop_body :: "ssize_t \<Rightarrow> nat \<Rightarrow> u64 \<Rightarrow> u64 \<Rightarrow> pass" where
  "loop_body ret ptr to_copy written =
     (case ret of
        Ret n \<Rightarrow>
          if n > 0 then
            (let written' = written + of_nat n in
             if written' = to_copy then Return True else Again (ptr + n) written')
          else Again ptr written
      | Err e \<Rightarrow>
          if e \<noteq> EINTR then Return False else Again ptr written)"

text \<open>
  The loop runs along the outcomes of the successive \<^verbatim>\<open>write\<close> calls. It has no bound of
  its own: \<open>None\<close> says that it is still running when the outcomes given are used up.
\<close>

fun copy_loop ::
  "write_outcome list \<Rightarrow> byte list \<Rightarrow> nat \<Rightarrow> u64 \<Rightarrow> u64 \<Rightarrow> outfd
     \<Rightarrow> (bool \<times> outfd \<times> write_outcome list) option" where
  "copy_loop [] base ptr to_copy written out = None"
| "copy_loop (oc # ocs) base ptr to_copy written out =
     (case sys_write oc out (drop ptr base) (unat (to_copy - written)) of
        (ret, out') \<Rightarrow>
          (case loop_body ret ptr to_copy written of
             Return b \<Rightarrow> Some (b, out', ocs)
           | Again ptr' written' \<Rightarrow> copy_loop ocs base ptr' to_copy written' out'))"

definition copy_file ::
  "world \<Rightarrow> write_outcome list \<Rightarrow> outfd \<Rightarrow> string \<Rightarrow> u64 \<Rightarrow> u64
     \<Rightarrow> (bool \<times> outfd \<times> write_outcome list) option" where
  "copy_file w ocs out name fsize offset =
     (case w_fs w name of
        None \<Rightarrow> Some (False, out, ocs)
      | Some ino \<Rightarrow>
          if i_open_copy ino then
            (case mmap ino fsize of
               None \<Rightarrow> Some (False, out, ocs)
             | Some base \<Rightarrow> copy_loop ocs base (unat offset) (fsize - offset) 0 out)
          else Some (False, out, ocs))"

subsection \<open>\<^verbatim>\<open>main\<close>\<close>

definition PATH_MAX :: nat where
  "PATH_MAX = 4096"

text \<open>\<^verbatim>\<open>snprintf(pathname, sizeof(pathname), "%s/%s", argv[1], entry->d_name)\<close>.\<close>

definition snprintf_path :: "string \<Rightarrow> string \<Rightarrow> string" where
  "snprintf_path dir d_name = take (PATH_MAX - 1) (dir @ ''/'' @ d_name)"

text \<open>
  \<^verbatim>\<open>strcasecmp\<close> in the "C" locale (the program never calls \<^verbatim>\<open>setlocale\<close>): the strings
  are compared byte by byte after \<^verbatim>\<open>tolower\<close>, the terminating NUL included.
\<close>

definition tolower :: "char \<Rightarrow> char" where
  "tolower c =
     (let n = (of_char c :: nat) in if 65 \<le> n \<and> n \<le> 90 then char_of (n + 32) else c)"

fun strcasecmp :: "string \<Rightarrow> string \<Rightarrow> int" where
  "strcasecmp [] [] = 0"
| "strcasecmp [] (b # s2) = - int (of_char (tolower b))"
| "strcasecmp (a # s1) [] = int (of_char (tolower a))"
| "strcasecmp (a # s1) (b # s2) =
     (if tolower a = tolower b then strcasecmp s1 s2
      else int (of_char (tolower a)) - int (of_char (tolower b)))"

text \<open>
  The two tests of the directory loop (status, then name). The result is the status
  buffer of an entry that passes both.
\<close>

definition candidate :: "world \<Rightarrow> string \<Rightarrow> string \<Rightarrow> inode option" where
  "candidate w pathname d_name =
     (case stat w pathname of
        None \<Rightarrow> None
      | Some sbuf \<Rightarrow>
          if S_ISREG sbuf \<and> st_size sbuf > int minimum_size then
            (let len = length d_name in
             if len > 5 \<and> d_name ! (len - 5) = CHR ''.'' \<and>
                strcasecmp (drop (len - 4) d_name) ''pcap'' = 0
             then Some sbuf else None)
          else None)"

text \<open>
  The \<^verbatim>\<open>readdir\<close> loop, over the names still to come. \<open>None\<close> is the early return after
  a failed \<^verbatim>\<open>add\<close>; otherwise the Input Set, the heap and the size of the output file.
\<close>

fun scan ::
  "world \<Rightarrow> string \<Rightarrow> string list \<Rightarrow> files \<Rightarrow> heap \<Rightarrow> u64 \<Rightarrow> (files \<times> heap \<times> u64) option" where
  "scan w dir [] fs h outsize = Some (fs, h, outsize)"
| "scan w dir (d_name # rest) fs h outsize =
     (case candidate w (snprintf_path dir d_name) d_name of
        None \<Rightarrow> scan w dir rest fs h outsize
      | Some sbuf \<Rightarrow>
          (case get_first_timestamp w (snprintf_path dir d_name) of
             None \<Rightarrow> scan w dir rest fs h outsize
           | Some tstamp \<Rightarrow>
               (case files_add fs h (snprintf_path dir d_name) (of_int (st_size sbuf)) tstamp of
                  (True, fs', h') \<Rightarrow>
                    scan w dir rest fs' h'
                      (outsize + (of_int (st_size sbuf) - of_nat sizeof_pcap_file_header))
                | (False, fs', h') \<Rightarrow> None)))"

text \<open>
  The copy loop \<^verbatim>\<open>for (i = 0; (file = files.get(i)) != nullptr; i++)\<close>. It ends with
  \<open>None\<close> in the first component when every file was copied, with the index and the
  entry of the file whose copy failed otherwise.
\<close>

function copy_files ::
  "world \<Rightarrow> files \<Rightarrow> nat \<Rightarrow> write_outcome list \<Rightarrow> outfd
     \<Rightarrow> ((nat \<times> pcap_file) option \<times> outfd \<times> write_outcome list) option" where
  "copy_files w fs i ocs out =
     (case files_get fs i of
        None \<Rightarrow> Some (None, out, ocs)
      | Some f \<Rightarrow>
          (case copy_file w ocs out (filename f) (filesize f)
                  (if i > 0 then of_nat sizeof_pcap_file_header else 0) of
             None \<Rightarrow> None
           | Some (True, out', ocs') \<Rightarrow> copy_files w fs (i + 1) ocs' out'
           | Some (False, out', ocs') \<Rightarrow> Some (Some (i, f), out', ocs')))"
  by pat_completeness auto
termination
  by (relation "measure (\<lambda>(w, fs, i, ocs, out). M_used fs - i)")
     (auto simp: files_get_def split: if_splits)

declare copy_files.simps [simp del]

datatype diag =
    Usage "string list"
  | NotADirectory string
  | ErrorOpeningFile string
  | ErrorOpeningDirectory string
  | ErrorAllocatingMemory
  | ErrorTruncating string u64
  | ErrorCopying u64 string string

text \<open>
  What a run leaves: the exit status, the file at the output path as far as this run
  made it (\<open>None\<close>: it made none, or removed it), the diagnostics written to the standard
  error stream, and the outcomes of \<^verbatim>\<open>write\<close> calls that were never asked for.
\<close>

record result =
  status :: int
  out_file :: "byte list option"
  diags :: "diag list"
  writes_left :: "write_outcome list"

definition unlink :: "byte list option \<Rightarrow> byte list option" where
  "unlink f = None"

text \<open>
  The part of \<^verbatim>\<open>main\<close> after \<^verbatim>\<open>closedir\<close>: the output file is given its final length,
  the Input Set is sorted and the files are copied in that order.
\<close>

definition main_merge ::
  "qsort_fn \<Rightarrow> world \<Rightarrow> string list \<Rightarrow> files \<Rightarrow> u64 \<Rightarrow> result option" where
  "main_merge qs w argv fs outsize =
     (case ftruncate (w_ftruncate_ok w) \<lparr>o_data = [], o_pos = 0\<rparr> outsize of
        Some out \<Rightarrow>
          (case copy_files w (files_sort qs fs) 0 (w_writes w) out of
             None \<Rightarrow> None
           | Some (None, out', ocs) \<Rightarrow>
               Some \<lparr>status = 0, out_file = Some (o_data out'),
                     diags = [], writes_left = ocs\<rparr>
           | Some (Some (i, f), out', ocs) \<Rightarrow>
               Some \<lparr>status = - 1, out_file = unlink (Some (o_data out')),
                     diags = [ErrorCopying
                       (if i > 0 then filesize f - of_nat sizeof_pcap_file_header
                        else filesize f)
                       (filename f) (argv ! 2)],
                     writes_left = ocs\<rparr>)
      | None \<Rightarrow>
          Some \<lparr>status = - 1, out_file = unlink (Some []),
                diags = [ErrorTruncating (argv ! 2) outsize],
                writes_left = w_writes w\<rparr>)"

definition main :: "qsort_fn \<Rightarrow> world \<Rightarrow> string list \<Rightarrow> result option" where
  "main qs w argv =
     (if length argv = 3 then
        if w_isdir w then
          if w_creat_ok w then
            if w_opendir_ok w then
              (case scan w (argv ! 1) (w_readdir w) files_init (w_heap w)
                      (of_nat sizeof_pcap_file_header) of
                 None \<Rightarrow>
                   Some \<lparr>status = - 1, out_file = unlink (Some []),
                         diags = [ErrorAllocatingMemory], writes_left = w_writes w\<rparr>
               | Some (fs, h, outsize) \<Rightarrow> main_merge qs w argv fs outsize)
            else
              Some \<lparr>status = - 1, out_file = unlink (Some []),
                    diags = [ErrorOpeningDirectory (argv ! 1)], writes_left = w_writes w\<rparr>
          else
            Some \<lparr>status = - 1, out_file = None,
                  diags = [ErrorOpeningFile (argv ! 2)], writes_left = w_writes w\<rparr>
        else
          Some \<lparr>status = - 1, out_file = None,
                diags = [NotADirectory (argv ! 1)], writes_left = w_writes w\<rparr>
      else
        Some \<lparr>status = - 1, out_file = None,
              diags = [Usage (take 1 argv)], writes_left = w_writes w\<rparr>)"

subsection \<open>Notions for stating the properties\<close>

text \<open>
  \<^verbatim>\<open>add\<close> asks for memory once or twice: \<^verbatim>\<open>realloc\<close> when the block is full, then
  \<^verbatim>\<open>strdup\<close>.
\<close>

definition allocations_succeed :: "files \<Rightarrow> heap \<Rightarrow> bool" where
  "allocations_succeed fs h =
     (if M_used fs < M_size fs then fst (alloc h)
      else fst (alloc h) \<and> fst (alloc (snd (alloc h))))"

text \<open>
  An accepted input: a directory entry that passes the scanner and the header probe,
  with the Input Entry made for it. \<open>inputs\<close> lists them in directory order.
\<close>

definition accepted :: "world \<Rightarrow> string \<Rightarrow> string \<Rightarrow> pcap_file option" where
  "accepted w dir d_name =
     (case candidate w (snprintf_path dir d_name) d_name of
        None \<Rightarrow> None
      | Some sbuf \<Rightarrow>
          (case get_first_timestamp w (snprintf_path dir d_name) of
             None \<Rightarrow> None
           | Some tstamp \<Rightarrow>
               Some \<lparr>filename = snprintf_path dir d_name,
                     filesize = of_int (st_size sbuf), timestamp = tstamp\<rparr>))"

definition inputs :: "world \<Rightarrow> string \<Rightarrow> pcap_file list" where
  "inputs w dir = List.map_filter (accepted w dir) (w_readdir w)"

definition contents :: "world \<Rightarrow> pcap_file \<Rightarrow> byte list" where
  "contents w f = (case w_fs w (filename f) of None \<Rightarrow> [] | Some ino \<Rightarrow> i_data ino)"

text \<open>
  An Input Entry agrees with the file system: its file exists, the recorded size is the
  length of the file, and the file is longer than the two headers.
\<close>

definition well_sized :: "world \<Rightarrow> pcap_file \<Rightarrow> bool" where
  "well_sized w f \<longleftrightarrow>
     w_fs w (filename f) \<noteq> None \<and> unat (filesize f) = length (contents w f) \<and>
     40 < length (contents w f)"

text \<open>Sizes of files are \<^verbatim>\<open>off_t\<close> values.\<close>

definition sizes_fit :: "world \<Rightarrow> string \<Rightarrow> bool" where
  "sizes_fit w dir = list_all (\<lambda>f. length (contents w f) < 2 ^ 63) (inputs w dir)"

definition body :: "byte list \<Rightarrow> byte list" where
  "body d = drop 24 d"

text \<open>The merged file of the specification: the first file whole, the bodies of the others.\<close>

fun merged :: "byte list list \<Rightarrow> byte list" where
  "merged [] = []"
| "merged (d # ds) = d @ concat (map body ds)"

text \<open>What the copy loop writes for the \<open>j\<close>-th entry of the sorted Input Set.\<close>

definition chunk :: "world \<Rightarrow> pcap_file list \<Rightarrow> nat \<Rightarrow> byte list" where
  "chunk w es j = drop (if j > 0 then 24 else 0) (contents w (es ! j))"

text \<open>Where the body of the \<open>i\<close>-th file starts in the merged file.\<close>

definition body_start :: "byte list list \<Rightarrow> nat \<Rightarrow> nat" where
  "body_start ds i = 24 + sum_list (map (\<lambda>d. length (body d)) (take i ds))"

definition segment :: "nat \<Rightarrow> nat \<Rightarrow> 'a list \<Rightarrow> 'a list" where
  "segment start n xs = take n (drop start xs)"


text \<open>The accepted inputs in the order that \<^verbatim>\<open>qsort\<close> gives them.\<close>

definition sorted_inputs :: "qsort_fn \<Rightarrow> world \<Rightarrow> string \<Rightarrow> pcap_file list" where
  "sorted_inputs qs w dir = qs files_compare (inputs w dir)"

text \<open>An Input Set that holds the given entries in a block without spare slots.\<close>

definition packed :: "pcap_file list \<Rightarrow> files" where
  "packed es = \<lparr>M_files = map Some es, M_size = length es, M_used = length es\<rparr>"

definition outsize_of :: "pcap_file list \<Rightarrow> u64" where
  "outsize_of es = 24 + sum_list (map (\<lambda>f. filesize f - 24) es)"

subsection \<open>Concrete inputs\<close>

definition entry_a :: pcap_file where
  "entry_a = \<lparr>filename = ''d/a.pcap'', filesize = 41, timestamp = 100000005\<rparr>"

definition entry_b :: pcap_file where
  "entry_b = \<lparr>filename = ''d/B.PCAP'', filesize = 42, timestamp = 90000007\<rparr>"

definition set_a :: files where
  "set_a = fst (snd (files_add files_init [] ''d/a.pcap'' 41 100000005))"

text \<open>
  Files of a little-endian host: a file header with the microsecond magic and version
  2.4, a packet header with the seconds and the sub-second field, and a payload.
\<close>

definition pcap_hdr :: "byte list" where
  "pcap_hdr = [0xd4, 0xc3, 0xb2, 0xa1, 2, 0, 4, 0] @ replicate 16 0"

definition file_a :: "byte list" where
  "file_a = pcap_hdr @ [100, 0, 0, 0, 5, 0, 0, 0, 1, 0, 0, 0, 1, 0, 0, 0, 0xaa]"

definition file_b :: "byte list" where
  "file_b = pcap_hdr @ [90, 0, 0, 0, 7, 0, 0, 0, 2, 0, 0, 0, 2, 0, 0, 0, 0xbb, 0xbc]"

text \<open>A file with the nanosecond magic; its first packet is stamped (5, 999999999).\<close>

definition file_n :: "byte list" where
  "file_n = [0x4d, 0x3c, 0xb2, 0xa1, 2, 0, 4, 0] @ replicate 16 0
            @ [5, 0, 0, 0, 0xff, 0xc9, 0x9a, 0x3b, 1, 0, 0, 0, 1, 0, 0, 0, 0xcc]"

definition world_n :: world where
  "world_n =
     \<lparr>w_endian = LittleEndian, w_isdir = True, w_creat_ok = True, w_opendir_ok = True,
      w_readdir = [''n.pcap''],
      w_fs = map_of [(''d/n.pcap'',
               \<lparr>i_reg = True, i_data = file_n, i_open_probe = True, i_read_max = Some 64,
                i_open_copy = True, i_mmap_ok = True\<rparr>)],
      w_heap = [], w_ftruncate_ok = True, w_writes = []\<rparr>"

definition file_bad :: "byte list" where
  "file_bad = replicate 50 0x55"

definition plain :: "byte list \<Rightarrow> inode" where
  "plain d = \<lparr>i_reg = True, i_data = d, i_open_probe = True, i_read_max = Some 64,
              i_open_copy = True, i_mmap_ok = True\<rparr>"

definition world_ab :: world where
  "world_ab =
     \<lparr>w_endian = LittleEndian, w_isdir = True, w_creat_ok = True, w_opendir_ok = True,
      w_readdir = [''.'', ''a.pcap'', ''README.txt'', ''B.PCAP'', ''corrupt.pcap''],
      w_fs = map_of [(''d/.'', (plain [])\<lparr>i_reg := False\<rparr>),
                     (''d/a.pcap'', plain file_a),
                     (''d/README.txt'', plain file_bad),
                     (''d/B.PCAP'', plain file_b),
                     (''d/corrupt.pcap'', plain file_bad)],
      w_heap = [], w_ftruncate_ok = True,
      w_writes = [Accepts 10, Fails EINTR, Accepts 0, Accepts 100, Accepts 64]\<rparr>"

definition world_a :: world where
  "world_a = world_ab\<lparr>w_readdir := [''a.pcap'', ''README.txt''], w_writes := [Accepts 64]\<rparr>"

definition world_none :: world where
  "world_none = world_ab\<lparr>w_readdir := [''.'', ''README.txt'', ''corrupt.pcap'']\<rparr>"





definition argv_d :: "string list" where
  "argv_d = [''mergecap'', ''d'', ''out'']"

section \<open>Properties\<close>

subsection \<open>The Input Set\<close>

lemma files_inv_init: "files_inv files_init"
  by (simp add: files_inv_def files_init_def)

lemma entries_init: "entries files_init = []"
  by (simp add: entries_def files_init_def)

lemma length_realloc: "length (realloc block n) = n"
  by (simp add: realloc_def)

lemma take_realloc: "k \<le> length block \<Longrightarrow> k \<le> n \<Longrightarrow> take k (realloc block n) = take k block"
  by (simp add: realloc_def min_def)

lemma files_allocate_True:
  assumes "files_inv fs" and "files_allocate fs h = (True, fs', h')"
  shows "files_inv fs'" and "M_used fs' = M_used fs" and "M_used fs' < M_size fs'"
    and "take (M_used fs) (M_files fs') = take (M_used fs) (M_files fs)"
  using assms
  by (auto simp: files_allocate_def files_inv_def Let_def length_realloc take_realloc
      split: if_splits prod.splits bool.splits)

lemma files_allocate_False:
  assumes "files_allocate fs h = (False, fs', h')"
  shows "fs' = fs"
  using assms
  by (auto simp: files_allocate_def Let_def split: if_splits prod.splits bool.splits)

lemma files_add_True:
  assumes "files_inv fs" and "files_add fs h name fsize tstamp = (True, fs', h')"
  shows "files_inv fs'"
    and "M_used fs' = M_used fs + 1"
    and "entries fs' = entries fs @ [\<lparr>filename = name, filesize = fsize, timestamp = tstamp\<rparr>]"
proof -
  from assms(2) obtain fs1 h1 where al: "files_allocate fs h = (True, fs1, h1)"
    and fs': "fs' = fs1\<lparr>M_files := (M_files fs1)
                 [M_used fs1 := Some \<lparr>filename = name, filesize = fsize, timestamp = tstamp\<rparr>],
               M_used := M_used fs1 + 1\<rparr>"
    by (auto simp: files_add_def split: prod.splits bool.splits)
  note a = files_allocate_True [OF assms(1) al]
  from a(1) have len: "M_size fs1 = length (M_files fs1)" and
    ini: "list_all (\<lambda>s. s \<noteq> None) (take (M_used fs1) (M_files fs1))"
    by (simp_all add: files_inv_def)
  from a(3) len have lt: "M_used fs1 < length (M_files fs1)" by simp
  have tk: "take (Suc (M_used fs1)) ((M_files fs1)[M_used fs1 := v])
        = take (M_used fs1) (M_files fs1) @ [v]" for v
    using lt by (simp add: take_Suc_conv_app_nth)
  show "files_inv fs'"
    using len ini lt by (simp add: files_inv_def fs' tk)
  show "M_used fs' = M_used fs + 1"
    using a(2) by (simp add: fs')
  have "entries fs' = map the (take (M_used fs1) (M_files fs1)) @
      [\<lparr>filename = name, filesize = fsize, timestamp = tstamp\<rparr>]"
    by (simp add: entries_def fs' tk)
  also have "take (M_used fs1) (M_files fs1) = take (M_used fs) (M_files fs)"
    using a(2) a(4) by simp
  finally show "entries fs' = entries fs @ [\<lparr>filename = name, filesize = fsize, timestamp = tstamp\<rparr>]"
    by (simp add: entries_def)
qed

lemma files_add_False:
  assumes "files_inv fs" and "files_add fs h name fsize tstamp = (False, fs', h')"
  shows "files_inv fs'" and "M_used fs' = M_used fs" and "entries fs' = entries fs"
proof -
  from assms(2) consider "fs' = fs" | h1 where "files_allocate fs h = (True, fs', h1)"
    by (auto simp: files_add_def split: prod.splits bool.splits dest: files_allocate_False)
  then have "files_inv fs' \<and> M_used fs' = M_used fs \<and> entries fs' = entries fs"
  proof cases
    case 1
    then show ?thesis using assms(1) by simp
  next
    case 2
    from files_allocate_True [OF assms(1) 2] show ?thesis
      by (simp add: entries_def)
  qed
  then show "files_inv fs'" and "M_used fs' = M_used fs" and "entries fs' = entries fs"
    by simp_all
qed

lemma qsort_contract_length:
  "qsort_contract qs \<Longrightarrow> length (qs files_compare xs) = length xs"
  by (metis qsort_contract_def size_mset)

lemma files_sort_inv:
  assumes "files_inv fs" and "qsort_contract qs"
  shows "files_inv (files_sort qs fs)"
    and "M_used (files_sort qs fs) = M_used fs"
    and "entries (files_sort qs fs) = qs files_compare (entries fs)"
proof -
  let ?ys = "qs files_compare (map the (take (M_used fs) (M_files fs)))"
  from assms(1) have u: "M_used fs \<le> length (M_files fs)" and s: "M_size fs = length (M_files fs)"
    by (simp_all add: files_inv_def)
  have l: "length ?ys = M_used fs"
    using u by (simp add: qsort_contract_length [OF assms(2)])
  show "M_used (files_sort qs fs) = M_used fs"
    by (simp add: files_sort_def)
  show "entries (files_sort qs fs) = qs files_compare (entries fs)"
    using l by (simp add: files_sort_def entries_def comp_def)
  show "files_inv (files_sort qs fs)"
    using l u s by (simp add: files_inv_def files_sort_def list_all_iff)
qed

lemma reachable_inv: "reachable fs es \<Longrightarrow> files_inv fs \<and> entries fs = es"
proof (induction rule: reachable.induct)
  case r_init
  show ?case by (simp add: files_inv_init entries_init)
next
  case (r_add fs es h name fsize tstamp fs' h')
  then show ?case using files_add_True [of fs h name fsize tstamp fs' h'] by simp
next
  case (r_add_failed fs es h name fsize tstamp fs' h')
  then show ?case using files_add_False [of fs h name fsize tstamp fs' h'] by simp
next
  case (r_sort fs es qs)
  then show ?case using files_sort_inv [of fs qs] by simp
qed

lemma length_entries: "files_inv fs \<Longrightarrow> length (entries fs) = M_used fs"
  by (simp add: entries_def files_inv_def)

lemma files_get_entries:
  assumes "files_inv fs"
  shows "files_get fs idx = (if idx < M_used fs then Some (entries fs ! idx) else None)"
proof (cases "idx < M_used fs")
  case True
  from assms have u: "M_used fs \<le> length (M_files fs)"
    and ini: "list_all (\<lambda>s. s \<noteq> None) (take (M_used fs) (M_files fs))"
    by (simp_all add: files_inv_def)
  from ini True u have "take (M_used fs) (M_files fs) ! idx \<noteq> None"
    by (simp add: list_all_length)
  with True u show ?thesis
    by (auto simp: files_get_def entries_def)
next
  case False
  then show ?thesis by (simp add: files_get_def)
qed

text \<open>
  Claim C9. In every state of the Input Set, \<^verbatim>\<open>get(idx)\<close> points to the \<open>idx\<close>-th stored
  entry when \<open>idx\<close> is below the number of entries added so far, and is the null pointer
  otherwise; the slot it reads lies inside the allocated block and holds that entry.
  It reads no slot at or after the stored entries: whatever the block holds, the result
  is the null pointer for such an index and the slot \<open>idx\<close> itself otherwise, and two
  Input Sets that agree on the count and on the stored entries give the same result.
\<close>

theorem files_get_in_bounds:
  assumes "reachable fs es"
  shows "files_get fs idx = (if idx < length es then Some (es ! idx) else None) \<and>
         M_used fs = length es \<and>
         (idx < length es \<longrightarrow> idx < length (M_files fs) \<and> M_files fs ! idx = Some (es ! idx)) \<and>
         (\<forall>block. files_get (fs\<lparr>M_files := block\<rparr>) idx
            = (if idx < length es then block ! idx else None)) \<and>
         (\<forall>fs2. M_used fs2 = M_used fs \<and>
                take (M_used fs) (M_files fs2) = take (M_used fs) (M_files fs) \<longrightarrow>
                files_get fs2 idx = files_get fs idx)"
proof -
  from reachable_inv [OF assms] have inv: "files_inv fs" and es: "entries fs = es"
    by simp_all
  from inv es have used: "M_used fs = length es"
    by (simp add: length_entries [symmetric])
  from inv have "M_used fs \<le> length (M_files fs)"
    by (simp add: files_inv_def)
  with used files_get_entries [OF inv, of idx] es
  have stored: "files_get fs idx = (if idx < length es then Some (es ! idx) else None) \<and>
      M_used fs = length es \<and>
      (idx < length es \<longrightarrow> idx < length (M_files fs) \<and> M_files fs ! idx = Some (es ! idx))"
    by (auto simp: files_get_def)
  have any_block: "files_get (fs\<lparr>M_files := block\<rparr>) idx
      = (if idx < length es then block ! idx else None)" for block
    by (simp add: files_get_def used)
  have same: "files_get fs2 idx = files_get fs idx"
    if "M_used fs2 = M_used fs"
      and "take (M_used fs) (M_files fs2) = take (M_used fs) (M_files fs)" for fs2
  proof (cases "idx < M_used fs")
    case True
    then have "M_files fs2 ! idx = take (M_used fs) (M_files fs2) ! idx"
      by simp
    also have "\<dots> = take (M_used fs) (M_files fs) ! idx"
      by (simp only: that(2))
    also have "\<dots> = M_files fs ! idx"
      using True by simp
    finally show ?thesis
      using True that(1) by (simp add: files_get_def)
  next
    case False
    with that(1) show ?thesis
      by (simp add: files_get_def)
  qed
  from any_block have "\<forall>block. files_get (fs\<lparr>M_files := block\<rparr>) idx
      = (if idx < length es then block ! idx else None)"
    by (rule allI)
  moreover from same have "\<forall>fs2. M_used fs2 = M_used fs \<and>
      take (M_used fs) (M_files fs2) = take (M_used fs) (M_files fs) \<longrightarrow>
      files_get fs2 idx = files_get fs idx"
    by (intro allI impI) (erule conjE)
  moreover note stored [THEN conjunct1] stored [THEN conjunct2, THEN conjunct1]
    stored [THEN conjunct2, THEN conjunct2]
  ultimately show ?thesis
    by (intro conjI)
qed

lemma reachable_set_a: "reachable set_a [entry_a]"
proof -
  have "files_add files_init [] ''d/a.pcap'' 41 100000005 = (True, set_a, [])"
    by (simp add: set_a_def files_add_def files_allocate_def files_init_def)
  from r_add [OF r_init this] show ?thesis
    by (simp add: entry_a_def)
qed

lemma set_a_counts: "M_used set_a = 1 \<and> M_size set_a = 1024"
  by (simp add: set_a_def files_add_def files_allocate_def files_init_def)

lemma length_block_set_a: "length (M_files set_a) = 1024"
  using reachable_inv [OF reachable_set_a] set_a_counts
  by (simp add: files_inv_def)

theorem files_get_in_bounds_witness:
  "reachable set_a [entry_a] \<and>
   files_get set_a 0 = Some entry_a \<and> files_get set_a 1 = None \<and> M_used set_a = 1 \<and>
   0 < length (M_files set_a) \<and> M_files set_a ! 0 = Some entry_a \<and>
   ((M_files set_a)[1 := Some entry_b]) ! 1 = Some entry_b \<and>
   files_get (set_a\<lparr>M_files := (M_files set_a)[1 := Some entry_b]\<rparr>) 1 = None \<and>
   files_get (set_a\<lparr>M_files := (M_files set_a)[1 := Some entry_b]\<rparr>) 0 = files_get set_a 0"
proof -
  note t0 = files_get_in_bounds [OF reachable_set_a, of 0]
  note t1 = files_get_in_bounds [OF reachable_set_a, of 1]
  define block where "block = (M_files set_a)[1 := Some entry_b]"
  from t0 [THEN conjunct1] have g0: "files_get set_a 0 = Some entry_a"
    by simp
  from t1 [THEN conjunct1] have g1: "files_get set_a 1 = None"
    by simp
  from t0 [THEN conjunct2, THEN conjunct1] have used: "M_used set_a = 1"
    by simp
  from t0 [THEN conjunct2, THEN conjunct2, THEN conjunct1]
  have slot: "0 < length (M_files set_a) \<and> M_files set_a ! 0 = Some entry_a"
    by simp
  have written: "block ! 1 = Some entry_b"
    by (simp add: block_def length_block_set_a)
  from t1 [THEN conjunct2, THEN conjunct2, THEN conjunct2, THEN conjunct1, THEN spec, of block]
  have past: "files_get (set_a\<lparr>M_files := block\<rparr>) 1 = None"
    by simp
  have "take 1 block = take 1 (M_files set_a)"
    unfolding block_def by (rule take_update_cancel) simp
  then have agree: "M_used (set_a\<lparr>M_files := block\<rparr>) = M_used set_a \<and>
      take (M_used set_a) (M_files (set_a\<lparr>M_files := block\<rparr>))
        = take (M_used set_a) (M_files set_a)"
    by (simp add: used)
  from t0 [THEN conjunct2, THEN conjunct2, THEN conjunct2, THEN conjunct2, THEN spec,
      THEN mp, OF agree]
  have same: "files_get (set_a\<lparr>M_files := block\<rparr>) 0 = files_get set_a 0" .
  from reachable_set_a g0 g1 used slot written past same show ?thesis
    unfolding block_def by blast
qed

lemma insert_cmp_mset: "mset (insert_cmp cmp x xs) = add_mset x (mset xs)"
  by (induction xs) auto

lemma insertion_qsort_mset: "mset (insertion_qsort cmp xs) = mset xs"
  by (induction xs) (auto simp: insert_cmp_mset)

lemma files_compare_le: "files_compare a b \<le> 0 \<longleftrightarrow> timestamp a \<le> timestamp b"
  by (auto simp: files_compare_def)

lemma insert_cmp_set: "set (insert_cmp cmp x xs) = insert x (set xs)"
  by (induction xs) auto

lemma insert_cmp_sorted:
  "sorted_wrt (\<lambda>a b. files_compare a b \<le> 0) xs \<Longrightarrow>
   sorted_wrt (\<lambda>a b. files_compare a b \<le> 0) (insert_cmp files_compare x xs)"
  by (induction xs) (auto simp: insert_cmp_set files_compare_le)

lemma insertion_qsort_contract: "qsort_contract insertion_qsort"
  unfolding qsort_contract_def
proof (intro allI conjI)
  fix xs
  show "mset (insertion_qsort files_compare xs) = mset xs"
    by (rule insertion_qsort_mset)
  show "sorted_wrt (\<lambda>a b. files_compare a b \<le> 0) (insertion_qsort files_compare xs)"
    by (induction xs) (auto intro: insert_cmp_sorted)
qed


lemma files_add_result:
  "fst (files_add fs h name fsize tstamp) = allocations_succeed fs h"
  by (auto simp: files_add_def files_allocate_def allocations_succeed_def Let_def
      split: prod.splits bool.splits)

text \<open>
  Claim C10. \<^verbatim>\<open>add\<close> returns true exactly when the memory it asks for is granted. Then
  the Input Set holds one entry more, the new entry (name, size, timestamp) comes last
  and the entries stored before are unchanged. Otherwise it returns false, and the
  count and the stored entries are as before.
\<close>

theorem files_add_appends_or_fails:
  assumes "reachable fs es" and "files_add fs h name fsize tstamp = (r, fs', h')"
  shows "(r \<longleftrightarrow> allocations_succeed fs h) \<and>
         (if r then
            M_used fs' = length es + 1 \<and>
            entries fs' = es @ [\<lparr>filename = name, filesize = fsize, timestamp = tstamp\<rparr>] \<and>
            files_get fs' (length es)
              = Some \<lparr>filename = name, filesize = fsize, timestamp = tstamp\<rparr> \<and>
            (\<forall>i < length es. files_get fs' i = files_get fs i)
          else
            M_used fs' = length es \<and> entries fs' = es \<and>
            (\<forall>i. files_get fs' i = files_get fs i))"
proof -
  from reachable_inv [OF assms(1)] have inv: "files_inv fs" and es: "entries fs = es"
    by simp_all
  from inv es have used: "M_used fs = length es"
    by (simp add: length_entries [symmetric])
  have res: "r \<longleftrightarrow> allocations_succeed fs h"
    using files_add_result [of fs h name fsize tstamp] assms(2) by simp
  show ?thesis
  proof (cases r)
    case True
    with assms(2) have ad: "files_add fs h name fsize tstamp = (True, fs', h')" by simp
    note t = files_add_True [OF inv ad]
    from t(2,3) es used res True show ?thesis
      by (simp add: files_get_entries [OF t(1)] files_get_entries [OF inv] nth_append)
  next
    case False
    with assms(2) have ad: "files_add fs h name fsize tstamp = (False, fs', h')" by simp
    note f = files_add_False [OF inv ad]
    from f(2,3) es used res False show ?thesis
      by (simp add: files_get_entries [OF f(1)] files_get_entries [OF inv])
  qed
qed

theorem files_add_appends_or_fails_witness:
  "reachable set_a [entry_a] \<and>
   (case files_add set_a [] ''d/B.PCAP'' 42 90000007 of
      (r, fs', h') \<Rightarrow>
        r \<and> entries fs' = [entry_a, entry_b] \<and> M_used fs' = 2 \<and>
        files_get fs' 1 = Some entry_b \<and> files_get fs' 0 = files_get set_a 0) \<and>
   (case files_add set_a [False] ''d/B.PCAP'' 42 90000007 of
      (r, fs', h') \<Rightarrow>
        \<not> r \<and> entries fs' = [entry_a] \<and> M_used fs' = 1 \<and>
        files_get fs' 0 = files_get set_a 0)"
proof -
  obtain r fs' h' where ok: "files_add set_a [] ''d/B.PCAP'' 42 90000007 = (r, fs', h')"
    by (cases "files_add set_a [] ''d/B.PCAP'' 42 90000007")
  obtain r2 fs2 h2 where ko: "files_add set_a [False] ''d/B.PCAP'' 42 90000007 = (r2, fs2, h2)"
    by (cases "files_add set_a [False] ''d/B.PCAP'' 42 90000007")
  have "allocations_succeed set_a []" and "\<not> allocations_succeed set_a [False]"
    by (simp_all add: allocations_succeed_def set_a_counts)
  with files_add_appends_or_fails [OF reachable_set_a ok]
    files_add_appends_or_fails [OF reachable_set_a ko] reachable_set_a ok ko
  show ?thesis
    by (auto simp: entry_b_def)
qed

subsection \<open>The copy loop\<close>

lemma store_Nil: "store out [] = out"
  by (simp add: store_def)

lemma store_append: "store (store out as) bs = store out (as @ bs)"
proof (cases "as = [] \<or> bs = []")
  case True
  then show ?thesis by (auto simp: store_def)
next
  case False
  have "min (length (o_data out)) (o_pos out) + (o_pos out - length (o_data out)) = o_pos out"
    by arith
  with False show ?thesis
    by (simp add: store_def ac_simps)
qed

lemma take_take_drop:
  "k \<le> n \<Longrightarrow> take k xs @ take (n - k) (drop k xs) = take n xs"
  by (metis le_add_diff_inverse take_add)

lemma unat_written:
  fixes w tc :: u64
  assumes "unat w + k \<le> unat tc"
  shows "unat (w + of_nat k) = unat w + k"
proof -
  have "unat tc < 2 ^ 64" using unsigned_less [of tc] by simp
  with assms have "unat w + k < 2 ^ 64" by simp
  then show ?thesis
    by (simp add: unat_word_ariths unat_of_nat)
qed

lemma copy_loop_Accepts:
  "copy_loop (Accepts n # ocs) base ptr tc w out =
     (let bs = take (min n (unat (tc - w))) (drop ptr base) in
      if bs = [] then copy_loop ocs base ptr tc w out
      else if w + of_nat (length bs) = tc then Some (True, store out bs, ocs)
      else copy_loop ocs base (ptr + length bs) tc (w + of_nat (length bs)) (store out bs))"
  by (simp add: sys_write_def loop_body_def Let_def store_Nil del: length_take take_eq_Nil)

lemma copy_loop_Fails:
  "copy_loop (Fails e # ocs) base ptr tc w out =
     (if e = EINTR then copy_loop ocs base ptr tc w out else Some (False, out, ocs))"
  by (simp add: sys_write_def loop_body_def)

lemma copy_loop_True:
  assumes "copy_loop ocs base ptr tc w out = Some (True, out', ocs')"
    and "unat w < unat tc"
    and "ptr + (unat tc - unat w) \<le> length base"
  shows "out' = store out (take (unat tc - unat w) (drop ptr base))"
  using assms
proof (induction ocs arbitrary: ptr w out)
  case Nil
  then show ?case by simp
next
  case (Cons oc ocs)
  define cnt where "cnt = unat tc - unat w"
  from Cons.prems(2) have cnt: "unat (tc - w) = cnt"
    by (simp add: unat_sub word_le_nat_alt cnt_def)
  show ?case
  proof (cases oc)
    case (Fails e)
    with Cons.prems(1) have rec: "copy_loop ocs base ptr tc w out = Some (True, out', ocs')"
      by (simp add: copy_loop_Fails del: copy_loop.simps split: if_splits)
    from Cons.IH [OF rec Cons.prems(2,3)] show ?thesis .
  next
    case (Accepts n)
    define k where "k = min n cnt"
    define bs where "bs = take k (drop ptr base)"
    from Cons.prems(3) have len: "length bs = k"
      by (simp add: bs_def k_def cnt_def)
    have kle: "k \<le> cnt" by (simp add: k_def)
    from Cons.prems(1) have run:
      "(if bs = [] then copy_loop ocs base ptr tc w out
        else if w + of_nat k = tc then Some (True, store out bs, ocs)
        else copy_loop ocs base (ptr + k) tc (w + of_nat k) (store out bs))
       = Some (True, out', ocs')"
      unfolding Accepts copy_loop_Accepts cnt Let_def k_def [symmetric] bs_def [symmetric] len .
    show ?thesis
    proof (cases "bs = []")
      case True
      with run have rec: "copy_loop ocs base ptr tc w out = Some (True, out', ocs')"
        by simp
      from Cons.IH [OF rec Cons.prems(2,3)] show ?thesis .
    next
      case False
      have le: "unat w + k \<le> unat tc" using kle Cons.prems(2) by (simp add: cnt_def)
      have uw: "unat (w + of_nat k) = unat w + k"
        by (rule unat_written [OF le])
      show ?thesis
      proof (cases "w + of_nat k = tc")
        case True
        with uw have "k = cnt" by (simp add: cnt_def)
        moreover from run False True have "out' = store out bs" by simp
        ultimately show ?thesis by (simp add: bs_def cnt_def)
      next
        case ne: False
        from ne uw le have lt: "unat (w + of_nat k) < unat tc"
          by (metis le_neq_implies_less word_unat_eq_iff)
        from run False ne
        have rec: "copy_loop ocs base (ptr + k) tc (w + of_nat k) (store out bs)
            = Some (True, out', ocs')"
          by simp
        have rng: "ptr + k + (unat tc - unat (w + of_nat k)) \<le> length base"
          using Cons.prems(3) uw le by simp
        from Cons.IH [OF rec lt rng]
        have "out' = store out (bs @ take (unat tc - unat (w + of_nat k)) (drop (ptr + k) base))"
          by (simp add: store_append)
        also have "unat tc - unat (w + of_nat k) = cnt - k"
          using uw by (simp add: cnt_def)
        also have "bs @ take (cnt - k) (drop (ptr + k) base) = take cnt (drop ptr base)"
          using take_take_drop [OF kle, of "drop ptr base"] by (simp add: add.commute bs_def)
        finally show ?thesis by (simp add: cnt_def)
      qed
    qed
  qed
qed

subsection \<open>The scan, and the merge over any layout of the block\<close>

lemma files_inv_packed: "files_inv (packed es)"
  by (simp add: files_inv_def packed_def list_all_iff)

lemma entries_packed: "entries (packed es) = es"
  by (simp add: entries_def packed_def comp_def)

lemma copy_files_entries:
  assumes "files_inv fs" and "files_inv fs2" and "entries fs = entries fs2"
  shows "copy_files w fs i ocs out = copy_files w fs2 i ocs out"
  using assms
proof (induction w fs i ocs out rule: copy_files.induct)
  case (1 w fs i ocs out)
  from "1.prems" have used: "M_used fs = M_used fs2"
    by (metis length_entries)
  have get: "files_get fs i = files_get fs2 i"
    using "1.prems" used by (simp add: files_get_entries)
  show ?case
  proof (cases "files_get fs i")
    case None
    with get show ?thesis
      by (subst (1 2) copy_files.simps) simp
  next
    case (Some f)
    show ?thesis
    proof (cases "copy_file w ocs out (filename f) (filesize f)
                   (if i > 0 then of_nat sizeof_pcap_file_header else 0)")
      case None
      with Some get show ?thesis
        by (subst (1 2) copy_files.simps) simp
    next
      case (Some res)
      obtain b out' ocs' where res: "res = (b, out', ocs')" by (cases res)
      show ?thesis
      proof (cases b)
        case True
        have "copy_files w fs (i + 1) ocs' out' = copy_files w fs2 (i + 1) ocs' out'"
          using "1.IH" [OF \<open>files_get fs i = Some f\<close>,
              of "(True, out', ocs')" True "(out', ocs')" out' ocs']
            Some res True "1.prems"
          by simp
        with Some res True \<open>files_get fs i = Some f\<close> get show ?thesis
          by (subst (1 2) copy_files.simps) simp
      next
        case False
        with Some res \<open>files_get fs i = Some f\<close> get show ?thesis
          by (subst (1 2) copy_files.simps) simp
      qed
    qed
  qed
qed

lemma main_merge_entries:
  assumes "qsort_contract qs" and "files_inv fs"
  shows "main_merge qs w argv fs n = main_merge qs w argv (packed (entries fs)) n"
proof -
  have eq: "copy_files w (files_sort qs fs) 0 ocs out
      = copy_files w (files_sort qs (packed (entries fs))) 0 ocs out" for ocs out
    by (rule copy_files_entries)
       (simp_all add: files_sort_inv [OF _ assms(1)] assms(2) files_inv_packed entries_packed)
  show ?thesis
    by (cases "ftruncate (w_ftruncate_ok w) \<lparr>o_data = [], o_pos = 0\<rparr> n")
       (simp_all add: main_merge_def eq)
qed

lemma scan_entries:
  assumes "scan w dir names fs h n = Some (fs', h', n')" and "files_inv fs"
  shows "files_inv fs' \<and>
         entries fs' = entries fs @ List.map_filter (accepted w dir) names \<and>
         n' = n + sum_list (map (\<lambda>f. filesize f - 24) (List.map_filter (accepted w dir) names))"
  using assms
proof (induction names arbitrary: fs h n)
  case Nil
  then show ?case by simp
next
  case (Cons d_name rest)
  show ?case
  proof (cases "accepted w dir d_name")
    case None
    with Cons.prems(1) have "scan w dir rest fs h n = Some (fs', h', n')"
      by (auto simp: accepted_def split: option.splits)
    from Cons.IH [OF this Cons.prems(2)] None show ?thesis
      by simp
  next
    case (Some f)
    then obtain sbuf tstamp where
      c: "candidate w (snprintf_path dir d_name) d_name = Some sbuf" and
      t: "get_first_timestamp w (snprintf_path dir d_name) = Some tstamp" and
      f: "f = \<lparr>filename = snprintf_path dir d_name,
                filesize = of_int (st_size sbuf), timestamp = tstamp\<rparr>"
      by (auto simp: accepted_def split: option.splits)
    from Cons.prems(1) c t obtain fs1 h1 where
      ad: "files_add fs h (snprintf_path dir d_name) (of_int (st_size sbuf)) tstamp
            = (True, fs1, h1)" and
      rec: "scan w dir rest fs1 h1 (n + (of_int (st_size sbuf) - 24)) = Some (fs', h', n')"
      by (auto simp: sizeof_pcap_file_header_def split: prod.splits bool.splits)
    note a = files_add_True [OF Cons.prems(2) ad]
    from Cons.IH [OF rec a(1)] a(3) Some f show ?thesis
      by (simp add: add.assoc)
  qed
qed

lemma alloc_all_True: "set h \<subseteq> {True} \<Longrightarrow> fst (alloc h) \<and> set (snd (alloc h)) \<subseteq> {True}"
  by (cases h) auto

lemma files_add_succeeds:
  assumes "set h \<subseteq> {True}"
  shows "\<exists>fs' h'. files_add fs h name fsize tstamp = (True, fs', h') \<and> set h' \<subseteq> {True}"
proof -
  obtain r fs' h' where ad: "files_add fs h name fsize tstamp = (r, fs', h')"
    by (cases "files_add fs h name fsize tstamp")
  have "allocations_succeed fs h"
    using alloc_all_True [OF assms] alloc_all_True [of "snd (alloc h)"]
    by (simp add: allocations_succeed_def)
  with files_add_result [of fs h name fsize tstamp] ad have r by simp
  moreover have "set h' \<subseteq> {True}"
    using ad alloc_all_True [OF assms] alloc_all_True [of "snd (alloc h)"]
    by (auto simp: files_add_def files_allocate_def Let_def split: prod.splits bool.splits if_splits)
  ultimately show ?thesis using ad by simp
qed

lemma scan_succeeds:
  assumes "set h \<subseteq> {True}"
  shows "\<exists>fs' h' n'. scan w dir names fs h n = Some (fs', h', n')"
  using assms
proof (induction names arbitrary: fs h n)
  case Nil
  then show ?case by simp
next
  case (Cons d_name rest)
  show ?case
  proof (cases "accepted w dir d_name")
    case None
    then have "scan w dir (d_name # rest) fs h n = scan w dir rest fs h n"
      by (auto simp: accepted_def split: option.splits)
    with Cons.IH [OF Cons.prems] show ?thesis by simp
  next
    case (Some f)
    then obtain sbuf tstamp where
      c: "candidate w (snprintf_path dir d_name) d_name = Some sbuf" and
      t: "get_first_timestamp w (snprintf_path dir d_name) = Some tstamp"
      by (auto simp: accepted_def split: option.splits)
    from files_add_succeeds [OF Cons.prems] obtain fs1 h1 where
      ad: "files_add fs h (snprintf_path dir d_name) (of_int (st_size sbuf)) tstamp
            = (True, fs1, h1)" and h1: "set h1 \<subseteq> {True}"
      by blast
    from Cons.IH [OF h1] c t ad show ?thesis by simp
  qed
qed

lemma main_eq_merge:
  assumes "qsort_contract qs" and "set (w_heap w) \<subseteq> {True}"
    and "w_isdir w" and "w_creat_ok w" and "w_opendir_ok w"
  shows "main qs w [prog, dir, outp]
       = main_merge qs w [prog, dir, outp] (packed (inputs w dir)) (outsize_of (inputs w dir))"
proof -
  from scan_succeeds [OF assms(2)] obtain fs h n where
    sc: "scan w dir (w_readdir w) files_init (w_heap w) 24 = Some (fs, h, n)"
    by blast
  from scan_entries [OF sc files_inv_init]
  have inv: "files_inv fs" and es: "entries fs = inputs w dir"
    and n: "n = outsize_of (inputs w dir)"
    by (simp_all add: entries_init inputs_def outsize_of_def)
  from sc assms(3-5) have "main qs w [prog, dir, outp] = main_merge qs w [prog, dir, outp] fs n"
    by (simp add: main_def sizeof_pcap_file_header_def)
  also have "\<dots> = main_merge qs w [prog, dir, outp] (packed (entries fs)) n"
    by (rule main_merge_entries [OF assms(1) inv])
  finally show ?thesis by (simp add: es n)
qed

subsection \<open>What the copies write\<close>

lemma accepted_file:
  assumes "accepted w dir d_name = Some f"
  shows "\<exists>ino. w_fs w (filename f) = Some ino \<and> contents w f = i_data ino \<and>
           filesize f = of_nat (length (i_data ino)) \<and> 40 < length (i_data ino)"
  using assms
  by (auto simp: accepted_def candidate_def stat_def st_size_def contents_def minimum_size_def
      sizeof_pcap_file_header_def sizeof_pcap_pkthdr_def Let_def
      split: option.splits if_splits)

lemma in_inputs:
  "f \<in> set (inputs w dir) \<longleftrightarrow> (\<exists>d_name \<in> set (w_readdir w). accepted w dir d_name = Some f)"
  by (force simp: inputs_def List.map_filter_def image_iff)

lemma inputs_well_sized:
  assumes "sizes_fit w dir"
  shows "list_all (well_sized w) (inputs w dir)"
  unfolding list_all_iff
proof
  fix f assume f: "f \<in> set (inputs w dir)"
  then obtain d_name where "accepted w dir d_name = Some f"
    by (auto simp: in_inputs)
  from accepted_file [OF this] obtain ino where
    ino: "w_fs w (filename f) = Some ino" "contents w f = i_data ino"
      "filesize f = of_nat (length (i_data ino))" "40 < length (i_data ino)"
    by blast
  from assms f have "length (contents w f) < 2 ^ 63"
    by (simp add: sizes_fit_def list_all_iff)
  with ino have "unat (filesize f) = length (contents w f)"
    by (simp add: unat_of_nat)
  with ino show "well_sized w f"
    by (simp add: well_sized_def)
qed

lemma copy_file_True:
  assumes "copy_file w ocs out (filename f) (filesize f) off = Some (True, out', ocs')"
    and "well_sized w f" and "unat off \<le> 24"
  shows "out' = store out (drop (unat off) (contents w f))"
proof -
  from assms(2) obtain ino where ino: "w_fs w (filename f) = Some ino"
    and len: "unat (filesize f) = length (i_data ino)" and big: "40 < length (i_data ino)"
    and c: "contents w f = i_data ino"
    by (auto simp: well_sized_def contents_def)
  from assms(1) ino len have
    run: "copy_loop ocs (i_data ino) (unat off) (filesize f - off) 0 out = Some (True, out', ocs')"
    by (auto simp: copy_file_def mmap_def split: if_splits)
  have le: "off \<le> filesize f"
    using assms(3) len big by (simp add: word_le_nat_alt)
  then have tc: "unat (filesize f - off) = length (i_data ino) - unat off"
    by (simp add: unat_sub len)
  have "out' = store out (take (unat (filesize f - off) - unat (0::u64)) (drop (unat off) (i_data ino)))"
    by (rule copy_loop_True [OF run]) (use tc assms(3) big in simp_all)
  then show ?thesis
    by (simp add: tc c)
qed

lemma copy_files_done:
  assumes "copy_files w fs i ocs out = Some (None, out', ocs')"
    and "files_inv fs" and "list_all (well_sized w) (entries fs)"
  shows "out' = store out (concat (map (chunk w (entries fs)) [i..<M_used fs]))"
  using assms
proof (induction w fs i ocs out rule: copy_files.induct)
  case (1 w fs i ocs out)
  note get = files_get_entries [OF "1.prems"(2), of i]
  show ?case
  proof (cases "i < M_used fs")
    case False
    with get "1.prems"(1) show ?thesis
      by (subst (asm) copy_files.simps) (simp add: store_Nil)
  next
    case True
    define f where "f = entries fs ! i"
    from True get have g: "files_get fs i = Some f" by (simp add: f_def)
    from True "1.prems"(2,3) have ws: "well_sized w f"
      by (simp add: f_def list_all_length length_entries)
    define off :: u64 where "off = (if i > 0 then of_nat sizeof_pcap_file_header else 0)"
    have off: "unat off = (if i > 0 then 24 else 0)"
      by (simp add: off_def sizeof_pcap_file_header_def)
    from "1.prems"(1) g obtain out1 ocs1 where
      cf: "copy_file w ocs out (filename f) (filesize f) off = Some (True, out1, ocs1)" and
      rec: "copy_files w fs (i + 1) ocs1 out1 = Some (None, out', ocs')"
      by (subst (asm) copy_files.simps)
         (auto simp: off_def split: option.splits prod.splits bool.splits)
    from copy_file_True [OF cf ws] off have o1: "out1 = store out (chunk w (entries fs) i)"
      by (simp add: chunk_def f_def)
    have "out' = store out1 (concat (map (chunk w (entries fs)) [i + 1..<M_used fs]))"
      using "1.IH" [OF g, of "(True, out1, ocs1)" True "(out1, ocs1)" out1 ocs1]
        cf rec "1.prems"(2,3)
      by (simp add: off_def)
    with o1 True show ?thesis
      by (simp add: store_append upt_conv_Cons)
  qed
qed

lemma chunks_merged:
  "concat (map (chunk w es) [0..<length es]) = merged (map (contents w) es)"
proof (cases es)
  case Nil
  then show ?thesis by simp
next
  case (Cons f rest)
  have "map (chunk w es) [0..<length es] = contents w f # map body (map (contents w) rest)"
  proof (rule nth_equalityI)
    show "length (map (chunk w es) [0..<length es])
        = length (contents w f # map body (map (contents w) rest))"
      by (simp add: Cons)
    fix i assume "i < length (map (chunk w es) [0..<length es])"
    then have "i < length es" by simp
    then show "map (chunk w es) [0..<length es] ! i
        = (contents w f # map body (map (contents w) rest)) ! i"
      by (cases i) (simp_all add: Cons chunk_def body_def del: upt_Suc)
  qed
  then show ?thesis
    using Cons by simp
qed

subsection \<open>The output of a successful run\<close>

lemma store_fresh:
  assumes "bs \<noteq> []" and "n \<le> length bs"
  shows "store \<lparr>o_data = replicate n 0, o_pos = 0\<rparr> bs = \<lparr>o_data = bs, o_pos = length bs\<rparr>"
  using assms by (simp add: store_def)

lemma ftruncate_empty:
  assumes "ftruncate ok \<lparr>o_data = [], o_pos = 0\<rparr> n = Some out"
  shows "out = \<lparr>o_data = replicate (unat n) 0, o_pos = 0\<rparr>"
  using assms by (simp add: ftruncate_def split: if_splits)

lemma length_merged:
  assumes "ds \<noteq> []" and "list_all (\<lambda>d. 24 \<le> length d) ds"
  shows "length (merged ds) = 24 + sum_list (map (\<lambda>d. length d - 24) ds)"
proof -
  from assms(1) obtain d rest where ds: "ds = d # rest" by (cases ds) auto
  have "length (concat (map body rest)) = sum_list (map (\<lambda>d. length d - 24) rest)"
    by (simp add: length_concat comp_def body_def)
  with assms(2) ds show ?thesis by simp
qed

lemma sum_list_permuted:
  fixes g :: "'a \<Rightarrow> nat"
  assumes "mset xs = mset ys"
  shows "sum_list (map g xs) = sum_list (map g ys)"
proof -
  have "sum_list (map g xs) = sum_mset (image_mset g (mset xs))"
    by (metis mset_map sum_mset_sum_list)
  also have "\<dots> = sum_list (map g ys)"
    unfolding assms by (metis mset_map sum_mset_sum_list)
  finally show ?thesis .
qed

lemma outsize_of_nat:
  assumes "list_all (well_sized w) es"
  shows "outsize_of es = of_nat (24 + sum_list (map (\<lambda>f. length (contents w f) - 24) es))"
proof -
  have "sum_list (map (\<lambda>f. filesize f - 24) es)
      = (of_nat (sum_list (map (\<lambda>f. length (contents w f) - 24) es)) :: u64)"
    using assms
  proof (induction es)
    case Nil
    show ?case by simp
  next
    case (Cons f es)
    then have ws: "well_sized w f" by simp
    then have "unat (filesize f) = length (contents w f)"
      by (simp add: well_sized_def)
    moreover have "of_nat (unat (filesize f)) = filesize f"
      by simp
    ultimately have "filesize f = of_nat (length (contents w f))"
      by simp
    moreover from ws have "24 \<le> length (contents w f)"
      by (simp add: well_sized_def)
    ultimately have "filesize f - 24 = of_nat (length (contents w f) - 24)"
      by simp
    with Cons show ?case by simp
  qed
  then show ?thesis by (simp add: outsize_of_def)
qed

lemma unat_of_nat_le: "unat (of_nat x :: u64) \<le> x"
  by (simp add: unat_of_nat)

lemma unat_outsize_le:
  assumes "list_all (well_sized w) es"
  shows "unat (outsize_of es) \<le> 24 + sum_list (map (\<lambda>f. length (contents w f) - 24) es)"
  unfolding outsize_of_nat [OF assms] by (rule unat_of_nat_le)

lemma main_merge_output:
  assumes run: "main_merge qs w argv fs n = Some r" and ok: "status r = 0"
    and qs: "qsort_contract qs" and inv: "files_inv fs"
    and ws: "list_all (well_sized w) (entries fs)"
    and n: "n = outsize_of (entries fs)"
  shows "out_file r = Some (if entries fs = [] then replicate 24 0
                            else merged (map (contents w) (qs files_compare (entries fs))))"
proof -
  define S where "S = qs files_compare (entries fs)"
  from qs have perm: "mset S = mset (entries fs)"
    by (simp add: S_def qsort_contract_def)
  note srt = files_sort_inv [OF inv qs]
  from srt(1) srt(3) have used: "M_used (files_sort qs fs) = length S"
    by (simp add: S_def length_entries [symmetric])
  from perm ws have wsS: "list_all (well_sized w) S"
    by (metis list_all_iff mset_eq_setD)
  from run ok obtain out out' ocs where
    ft: "ftruncate (w_ftruncate_ok w) \<lparr>o_data = [], o_pos = 0\<rparr> n = Some out" and
    cp: "copy_files w (files_sort qs fs) 0 (w_writes w) out = Some (None, out', ocs)" and
    r: "out_file r = Some (o_data out')"
    by (auto simp: main_merge_def unlink_def split: option.splits prod.splits)
  from copy_files_done [OF cp srt(1)] srt(3) wsS used
  have out': "out' = store out (merged (map (contents w) S))"
    by (simp add: S_def [symmetric] chunks_merged)
  note out = ftruncate_empty [OF ft]
  show ?thesis
  proof (cases "entries fs = []")
    case True
    with perm have "S = []" by simp
    with out' out r True n show ?thesis
      by (simp add: store_Nil outsize_of_def)
  next
    case False
    with perm have ne: "S \<noteq> []" by auto
    have big: "list_all (\<lambda>d. 24 \<le> length d) (map (contents w) S)"
      using wsS by (auto simp: list_all_iff well_sized_def)
    from length_merged [OF _ big] ne
    have len: "length (merged (map (contents w) S))
        = 24 + sum_list (map (\<lambda>f. length (contents w f) - 24) S)"
      by (simp add: comp_def)
    also have "\<dots> = 24 + sum_list (map (\<lambda>f. length (contents w f) - 24) (entries fs))"
      using sum_list_permuted [OF perm] by simp
    finally have "unat n \<le> length (merged (map (contents w) S))"
      using unat_outsize_le [OF ws] n by simp
    moreover from len have "merged (map (contents w) S) \<noteq> []" by auto
    ultimately have "out' = \<lparr>o_data = merged (map (contents w) S),
        o_pos = length (merged (map (contents w) S))\<rparr>"
      unfolding out' out by (simp add: store_fresh)
    with r False show ?thesis by (simp add: S_def)
  qed
qed

lemma main_success_merge:
  assumes "main qs w [prog, dir, outp] = Some r" and "status r = 0"
  shows "\<exists>fs h n. scan w dir (w_readdir w) files_init (w_heap w) 24 = Some (fs, h, n) \<and>
           main_merge qs w [prog, dir, outp] fs n = Some r"
  using assms
  by (auto simp: main_def sizeof_pcap_file_header_def split: if_splits option.splits)

lemma main_output:
  assumes qs: "qsort_contract qs" and fit: "sizes_fit w dir"
    and run: "main qs w [prog, dir, outp] = Some r" and ok: "status r = 0"
  shows "out_file r = Some (if inputs w dir = [] then replicate 24 0
                            else merged (map (contents w) (qs files_compare (inputs w dir))))"
proof -
  from main_success_merge [OF run ok] obtain fs h n where
    sc: "scan w dir (w_readdir w) files_init (w_heap w) 24 = Some (fs, h, n)" and
    mm: "main_merge qs w [prog, dir, outp] fs n = Some r"
    by blast
  from scan_entries [OF sc files_inv_init]
  have inv: "files_inv fs" and es: "entries fs = inputs w dir"
    and n: "n = outsize_of (entries fs)"
    by (simp_all add: entries_init inputs_def outsize_of_def)
  from inputs_well_sized [OF fit] es have ws: "list_all (well_sized w) (entries fs)"
    by simp
  from main_merge_output [OF mm ok qs inv ws n] es show ?thesis
    by simp
qed

lemma concat_segment:
  "i < length xs \<Longrightarrow>
   take (length (xs ! i)) (drop (sum_list (map length (take i xs))) (concat xs)) = xs ! i"
proof (induction xs arbitrary: i)
  case Nil
  then show ?case by simp
next
  case (Cons x xs)
  then show ?case by (cases i) simp_all
qed

lemma merged_header_bodies:
  assumes "ds \<noteq> []" and "24 \<le> length (hd ds)"
  shows "merged ds = take 24 (hd ds) @ concat (map body ds)"
proof -
  from assms(1) obtain d rest where ds: "ds = d # rest" by (cases ds) auto
  have "d = take 24 d @ body d" by (simp add: body_def)
  then have "merged (d # rest) = (take 24 d @ body d) @ concat (map body rest)"
    by simp
  with ds show ?thesis by simp
qed

lemma merged_segment:
  assumes "list_all (\<lambda>d. 24 \<le> length d) ds" and "i < length ds"
  shows "segment (body_start ds i) (length (body (ds ! i))) (merged ds) = body (ds ! i)"
proof -
  from assms(2) have ne: "ds \<noteq> []" by auto
  with assms(1) have hd: "24 \<le> length (hd ds)" by (cases ds) simp_all
  have st: "body_start ds i = 24 + sum_list (map length (take i (map body ds)))"
    by (simp add: body_start_def take_map comp_def)
  have "segment (body_start ds i) (length (body (ds ! i))) (merged ds)
      = take (length (map body ds ! i))
          (drop (sum_list (map length (take i (map body ds)))) (concat (map body ds)))"
    unfolding merged_header_bodies [OF ne hd] st segment_def
    using hd assms(2) by simp
  also have "\<dots> = map body ds ! i"
    by (rule concat_segment) (simp add: assms(2))
  finally show ?thesis using assms(2) by simp
qed

subsection \<open>The merged file\<close>

lemma snprintf_path_short [code]:
  "snprintf_path dir d_name =
     (let s = dir @ ''/'' @ d_name in
      if int (length s) < 4096 then s else take (PATH_MAX - 1) s)"
  by (simp add: snprintf_path_def PATH_MAX_def Let_def)

lemma inputs_ab: "inputs world_ab ''d'' = [entry_a, entry_b]"
  by code_simp


lemma inputs_none: "inputs world_none ''d'' = []"
  by code_simp

lemma run_ab:
  "main insertion_qsort world_ab argv_d
     = Some \<lparr>status = 0, out_file = Some (file_b @ body file_a), diags = [], writes_left = []\<rparr>"
proof -
  have "main insertion_qsort world_ab argv_d
      = main_merge insertion_qsort world_ab argv_d
          (packed [entry_a, entry_b]) (outsize_of [entry_a, entry_b])"
    unfolding argv_d_def
    using main_eq_merge [OF insertion_qsort_contract, of world_ab "''mergecap''" "''d''" "''out''"]
    by (simp add: inputs_ab) (simp add: world_ab_def)
  also have "\<dots> = Some \<lparr>status = 0, out_file = Some (file_b @ body file_a), diags = [],
      writes_left = []\<rparr>"
    by code_simp
  finally show ?thesis .
qed


lemma contents_ab:
  "contents world_ab entry_a = file_a" "contents world_ab entry_b = file_b"
  by code_simp+


lemma length_files: "length file_a = 41" "length file_b = 42"
  by (simp_all add: file_a_def file_b_def pcap_hdr_def)

lemma sizes_fit_ab: "sizes_fit world_ab ''d''"
  by (simp add: sizes_fit_def inputs_ab contents_ab length_files)


text \<open>
  Claim C1. When a run succeeds with at least one accepted input, the output file is the
  first input of the sorted Input Set in full, followed by the bytes from offset 24 on of
  each further input in sorted order, and its size is 24 plus the sum of (size - 24) over
  the accepted inputs. Cut at the known boundaries, the output gives back the body of
  each input.
\<close>

theorem merged_output:
  assumes "qsort_contract qs" and "sizes_fit w dir"
    and "main qs w [prog, dir, outp] = Some r" and "status r = 0"
    and "inputs w dir \<noteq> []"
  shows "out_file r = Some (merged (map (contents w) (sorted_inputs qs w dir))) \<and>
         length (merged (map (contents w) (sorted_inputs qs w dir)))
           = 24 + (\<Sum>f\<leftarrow>inputs w dir. length (contents w f) - 24) \<and>
         (\<Sum>f\<leftarrow>inputs w dir. length (contents w f) - 24)
           = (\<Sum>f\<leftarrow>inputs w dir. unat (filesize f) - 24) \<and>
         (\<forall>i < length (sorted_inputs qs w dir).
            segment (body_start (map (contents w) (sorted_inputs qs w dir)) i)
              (length (body (contents w (sorted_inputs qs w dir ! i))))
              (merged (map (contents w) (sorted_inputs qs w dir)))
            = body (contents w (sorted_inputs qs w dir ! i)))"
proof -
  let ?S = "sorted_inputs qs w dir"
  have S: "?S = qs files_compare (inputs w dir)"
    by (simp add: sorted_inputs_def)
  from assms(1) have perm: "mset ?S = mset (inputs w dir)"
    by (simp add: S qsort_contract_def)
  with assms(5) have ne: "map (contents w) ?S \<noteq> []" by auto
  note ws = inputs_well_sized [OF assms(2)]
  with perm have "list_all (well_sized w) ?S"
    by (metis list_all_iff mset_eq_setD)
  then have big: "list_all (\<lambda>d. 24 \<le> length d) (map (contents w) ?S)"
    by (auto simp: list_all_iff well_sized_def)
  have "length (merged (map (contents w) ?S))
      = 24 + (\<Sum>f\<leftarrow>?S. length (contents w f) - 24)"
    using length_merged [OF ne big] by (simp add: comp_def)
  also have "\<dots> = 24 + (\<Sum>f\<leftarrow>inputs w dir. length (contents w f) - 24)"
    using sum_list_permuted [OF perm] by simp
  finally have len: "length (merged (map (contents w) ?S))
      = 24 + (\<Sum>f\<leftarrow>inputs w dir. length (contents w f) - 24)" .
  have "map (\<lambda>f. length (contents w f) - 24) (inputs w dir)
      = map (\<lambda>f. unat (filesize f) - 24) (inputs w dir)"
    using ws by (auto simp: list_all_iff well_sized_def)
  then have "(\<Sum>f\<leftarrow>inputs w dir. length (contents w f) - 24)
      = (\<Sum>f\<leftarrow>inputs w dir. unat (filesize f) - 24)"
    by (rule arg_cong)
  moreover from main_output [OF assms(1-4)] assms(5)
  have "out_file r = Some (merged (map (contents w) ?S))"
    by (simp add: S)
  moreover have "segment (body_start (map (contents w) ?S) i)
      (length (body (contents w (?S ! i)))) (merged (map (contents w) ?S))
      = body (contents w (?S ! i))" if "i < length ?S" for i
    using merged_segment [OF big, of i] that by simp
  ultimately show ?thesis
    using len by blast
qed

lemma sorted_ab: "sorted_inputs insertion_qsort world_ab ''d'' = [entry_b, entry_a]"
  unfolding sorted_inputs_def inputs_ab by code_simp

theorem merged_output_witness:
  "(qsort_contract insertion_qsort \<and> sizes_fit world_ab ''d'' \<and>
    main insertion_qsort world_ab argv_d
      = Some \<lparr>status = 0, out_file = Some (file_b @ body file_a), diags = [],
              writes_left = []\<rparr> \<and>
    inputs world_ab ''d'' = [entry_a, entry_b]) \<and>
   merged (map (contents world_ab) [entry_b, entry_a]) = file_b @ body file_a \<and>
   length (file_b @ body file_a) = 24 + ((41 - 24) + (42 - 24)) \<and>
   segment 42 17 (file_b @ body file_a) = body file_a"
proof -
  have r: "status \<lparr>status = 0, out_file = Some (file_b @ body file_a), diags = [],
      writes_left = []\<rparr> = 0"
    by simp
  have ne: "inputs world_ab ''d'' \<noteq> []"
    by (simp add: inputs_ab)
  have l: "(\<Sum>f\<leftarrow>[entry_a, entry_b]. length (contents world_ab f) - 24)
      = (41 - 24) + (42 - 24)"
    by (simp add: contents_ab length_files)
  note t = merged_output [OF insertion_qsort_contract sizes_fit_ab
      run_ab [unfolded argv_d_def] r ne, unfolded inputs_ab sorted_ab]
  from t have m: "merged (map (contents world_ab) [entry_b, entry_a]) = file_b @ body file_a"
    by simp
  from t l have len: "length (file_b @ body file_a) = 24 + ((41 - 24) + (42 - 24))"
    by (simp only: m)
  have one: "1 < length [entry_b, entry_a]" by simp
  have "body_start [file_b, file_a] 1 = 42" "length (body file_a) = 17"
    by (simp_all add: body_start_def body_def length_files)
  with t [THEN conjunct2, THEN conjunct2, THEN conjunct2, THEN spec, THEN mp, OF one]
  have "segment 42 17 (file_b @ body file_a) = body file_a"
    by (simp add: m contents_ab)
  with m len show ?thesis
    using insertion_qsort_contract sizes_fit_ab run_ab inputs_ab by blast
qed



subsection \<open>No input, and failures\<close>

lemma scan_no_inputs:
  assumes "List.map_filter (accepted w dir) names = []"
  shows "scan w dir names fs h n = Some (fs, h, n)"
  using assms
proof (induction names)
  case Nil
  show ?case by simp
next
  case (Cons d_name rest)
  from Cons.prems have none: "accepted w dir d_name = None"
    and rest: "List.map_filter (accepted w dir) rest = []"
    by (simp_all split: option.splits)
  from none have "scan w dir (d_name # rest) fs h n = scan w dir rest fs h n"
    by (auto simp: accepted_def split: option.splits)
  with Cons.IH [OF rest] show ?case by simp
qed

lemma copy_files_empty:
  "M_used fs = 0 \<Longrightarrow> copy_files w fs 0 ocs out = Some (None, out, ocs)"
  by (subst copy_files.simps) (simp add: files_get_def)

text \<open>
  Claim C7. When no input is accepted (and the directory can be opened and the output
  file can be given its length), the run succeeds with exit status 0; the output file is
  24 bytes long and every byte is the zero that \<^verbatim>\<open>ftruncate\<close> put there: \<^verbatim>\<open>write\<close> is
  never called.
\<close>

theorem no_inputs_zero_filled_output:
  assumes "inputs w dir = []"
    and "w_isdir w" and "w_creat_ok w" and "w_opendir_ok w" and "w_ftruncate_ok w"
  shows "main qs w [prog, dir, outp]
       = Some \<lparr>status = 0, out_file = Some (replicate 24 0), diags = [],
                writes_left = w_writes w\<rparr>"
proof -
  from assms(1) have
    "scan w dir (w_readdir w) files_init (w_heap w) 24 = Some (files_init, w_heap w, 24)"
    by (intro scan_no_inputs) (simp add: inputs_def)
  moreover have "ftruncate True \<lparr>o_data = [], o_pos = 0\<rparr> 24
      = Some \<lparr>o_data = replicate 24 0, o_pos = 0\<rparr>"
    by (simp add: ftruncate_def)
  moreover have "M_used (files_sort qs files_init) = 0"
    by (simp add: files_sort_def files_init_def)
  ultimately show ?thesis
    using assms(2-5)
    by (simp add: main_def main_merge_def sizeof_pcap_file_header_def copy_files_empty)
qed

theorem no_inputs_zero_filled_output_witness:
  "(inputs world_none ''d'' = [] \<and> w_isdir world_none \<and> w_creat_ok world_none \<and>
    w_opendir_ok world_none \<and> w_ftruncate_ok world_none) \<and>
   main insertion_qsort world_none [''mergecap'', ''d'', ''out'']
     = Some \<lparr>status = 0, out_file = Some (replicate 24 0), diags = [],
              writes_left = [Accepts 10, Fails EINTR, Accepts 0, Accepts 100, Accepts 64]\<rparr>"
proof -
  have env: "w_isdir world_none" "w_creat_ok world_none" "w_opendir_ok world_none"
    "w_ftruncate_ok world_none"
    by (simp_all add: world_none_def world_ab_def)
  have "w_writes world_none = [Accepts 10, Fails EINTR, Accepts 0, Accepts 100, Accepts 64]"
    by (simp add: world_none_def world_ab_def)
  with no_inputs_zero_filled_output [OF inputs_none env, of insertion_qsort "''mergecap''" "''out''"]
    inputs_none env
  show ?thesis by simp
qed








lemma sorted_timestamps:
  assumes "qsort_contract qs"
  shows "sorted (map timestamp (qs files_compare es))"
proof -
  from assms have "sorted_wrt (\<lambda>a b. files_compare a b \<le> 0) (qs files_compare es)"
    by (simp add: qsort_contract_def)
  then show ?thesis
    by (simp add: sorted_map files_compare_le)
qed

lemma sorted_index_order:
  assumes "sorted (map timestamp S)" and "i < length S" and "j < length S"
    and "timestamp (S ! i) < timestamp (S ! j)"
  shows "i < j"
proof (rule ccontr)
  assume "\<not> i < j"
  then have "j \<le> i" by simp
  with assms(1,2) have "map timestamp S ! j \<le> map timestamp S ! i"
    by (simp add: sorted_iff_nth_mono del: nth_map)
  with assms(2-4) show False by simp
qed

lemma sum_list_take_mono:
  fixes g :: "'a \<Rightarrow> nat"
  assumes "m \<le> n"
  shows "sum_list (map g (take m xs)) \<le> sum_list (map g (take n xs))"
proof -
  from assms have "take n xs = take m xs @ take (n - m) (drop m xs)"
    by (metis le_add_diff_inverse take_add)
  then show ?thesis by simp
qed

lemma body_start_order:
  assumes "i < j" and "j \<le> length ds"
  shows "body_start ds i + length (body (ds ! i)) \<le> body_start ds j"
proof -
  from assms have "take (Suc i) ds = take i ds @ [ds ! i]"
    by (simp add: take_Suc_conv_app_nth)
  then have "body_start ds i + length (body (ds ! i)) = body_start ds (Suc i)"
    by (simp add: body_start_def)
  also have "\<dots> \<le> body_start ds j"
    unfolding body_start_def using assms(1)
    by (intro add_left_mono sum_list_take_mono) simp
  finally show ?thesis .
qed

subsection \<open>The order of the inputs\<close>

text \<open>
  Claim C2. After the sort the Input Set ascends along the 64-bit timestamps. For accepted
  inputs \<open>a\<close> and \<open>b\<close> with \<open>timestamp a < timestamp b\<close>, wherever they stand in the sorted
  Input Set, \<open>a\<close> stands before \<open>b\<close>, and in the output of a successful run the body of
  \<open>a\<close> lies at its place and ends before the place where the body of \<open>b\<close> starts.
\<close>

theorem earlier_timestamp_precedes:
  assumes "qsort_contract qs" and "sizes_fit w dir"
    and "main qs w [prog, dir, outp] = Some r" and "status r = 0"
    and "a \<in> set (inputs w dir)" and "b \<in> set (inputs w dir)"
    and "timestamp a < timestamp b"
  shows "(\<exists>fs h n. scan w dir (w_readdir w) files_init (w_heap w) 24 = Some (fs, h, n) \<and>
            entries (files_sort qs fs) = sorted_inputs qs w dir) \<and>
         sorted (map timestamp (sorted_inputs qs w dir)) \<and>
         a \<in> set (sorted_inputs qs w dir) \<and> b \<in> set (sorted_inputs qs w dir) \<and>
         (\<forall>i j. i < length (sorted_inputs qs w dir) \<and> j < length (sorted_inputs qs w dir) \<and>
            sorted_inputs qs w dir ! i = a \<and> sorted_inputs qs w dir ! j = b \<longrightarrow>
            i < j \<and>
            body_start (map (contents w) (sorted_inputs qs w dir)) i
              + length (body (contents w a))
              \<le> body_start (map (contents w) (sorted_inputs qs w dir)) j \<and>
            (\<exists>out. out_file r = Some out \<and>
               segment (body_start (map (contents w) (sorted_inputs qs w dir)) i)
                 (length (body (contents w a))) out = body (contents w a) \<and>
               segment (body_start (map (contents w) (sorted_inputs qs w dir)) j)
                 (length (body (contents w b))) out = body (contents w b)))"
proof -
  define S where "S = sorted_inputs qs w dir"
  define D where "D = map (contents w) S"
  have S: "S = qs files_compare (inputs w dir)"
    by (simp add: S_def sorted_inputs_def)
  from assms(1) have perm: "mset S = mset (inputs w dir)"
    by (simp add: S qsort_contract_def)
  then have sets: "set S = set (inputs w dir)"
    by (rule mset_eq_setD)
  have srt: "sorted (map timestamp S)"
    unfolding S by (rule sorted_timestamps [OF assms(1)])
  from main_success_merge [OF assms(3,4)] obtain fs h n where
    sc: "scan w dir (w_readdir w) files_init (w_heap w) 24 = Some (fs, h, n)"
    by blast
  from scan_entries [OF sc files_inv_init]
  have inv: "files_inv fs" and es: "entries fs = inputs w dir"
    by (simp_all add: entries_init inputs_def)
  from files_sort_inv(3) [OF inv assms(1)] es have prog: "entries (files_sort qs fs) = S"
    by (simp add: S)
  from inputs_well_sized [OF assms(2)] sets have "list_all (well_sized w) S"
    by (simp add: list_all_iff)
  then have big: "list_all (\<lambda>d. 24 \<le> length d) D"
    by (auto simp: D_def list_all_iff well_sized_def)
  from assms(5) have "inputs w dir \<noteq> []" by auto
  with main_output [OF assms(1-4)] have out: "out_file r = Some (merged D)"
    by (simp add: D_def S)
  have pos: "i < j \<and>
      body_start D i + length (body (contents w a)) \<le> body_start D j \<and>
      (\<exists>out. out_file r = Some out \<and>
         segment (body_start D i) (length (body (contents w a))) out = body (contents w a) \<and>
         segment (body_start D j) (length (body (contents w b))) out = body (contents w b))"
    if ij: "i < length S" "j < length S" "S ! i = a" "S ! j = b" for i j
  proof -
    from ij assms(7) have "timestamp (S ! i) < timestamp (S ! j)" by simp
    from sorted_index_order [OF srt ij(1,2) this] have lt: "i < j" .
    from ij have Di: "D ! i = contents w a" and Dj: "D ! j = contents w b"
      by (simp_all add: D_def)
    from ij have len: "i < length D" "j < length D" by (simp_all add: D_def)
    from body_start_order [OF lt, of D] len Di
    have "body_start D i + length (body (contents w a)) \<le> body_start D j"
      by simp
    moreover from merged_segment [OF big len(1)] Di
    have "segment (body_start D i) (length (body (contents w a))) (merged D) = body (contents w a)"
      by simp
    moreover from merged_segment [OF big len(2)] Dj
    have "segment (body_start D j) (length (body (contents w b))) (merged D) = body (contents w b)"
      by simp
    ultimately show ?thesis using lt out by simp
  qed
  from sc prog srt sets assms(5,6) pos show ?thesis
    unfolding S_def [symmetric] D_def [symmetric] by blast
qed

theorem earlier_timestamp_precedes_witness:
  "(qsort_contract insertion_qsort \<and> sizes_fit world_ab ''d'' \<and>
    main insertion_qsort world_ab [''mergecap'', ''d'', ''out'']
      = Some \<lparr>status = 0, out_file = Some (file_b @ body file_a), diags = [],
               writes_left = []\<rparr> \<and>
    inputs world_ab ''d'' = [entry_a, entry_b] \<and>
    timestamp entry_b < timestamp entry_a) \<and>
   sorted_inputs insertion_qsort world_ab ''d'' = [entry_b, entry_a] \<and>
   body_start [file_b, file_a] 0 = 24 \<and> body_start [file_b, file_a] 1 = 42 \<and>
   segment 24 18 (file_b @ body file_a) = body file_b \<and>
   segment 42 17 (file_b @ body file_a) = body file_a"
proof -
  have r: "status \<lparr>status = 0, out_file = Some (file_b @ body file_a), diags = [],
      writes_left = []\<rparr> = 0"
    by simp
  have ts: "timestamp entry_b < timestamp entry_a"
    by (simp add: entry_a_def entry_b_def)
  have mem: "entry_b \<in> set (inputs world_ab ''d'')" "entry_a \<in> set (inputs world_ab ''d'')"
    by (simp_all add: inputs_ab)
  have bs: "body_start [file_b, file_a] 0 = 24" "body_start [file_b, file_a] 1 = 42"
    "body_start [file_b, file_a] (Suc 0) = 42"
    "length (body file_b) = 18" "length (body file_a) = 17"
    by (simp_all add: body_start_def body_def length_files)
  note t = earlier_timestamp_precedes [OF insertion_qsort_contract sizes_fit_ab
      run_ab [unfolded argv_d_def] r mem ts, unfolded sorted_ab]
  have idx: "0 < length [entry_b, entry_a] \<and> 1 < length [entry_b, entry_a] \<and>
      [entry_b, entry_a] ! 0 = entry_b \<and> [entry_b, entry_a] ! 1 = entry_a"
    by simp
  note p = t [THEN conjunct2, THEN conjunct2, THEN conjunct2, THEN conjunct2,
      THEN spec, THEN spec, THEN mp, OF idx]
  from p have "segment 24 18 (file_b @ body file_a) = body file_b \<and>
      segment 42 17 (file_b @ body file_a) = body file_a"
    by (simp add: contents_ab bs)
  with bs insertion_qsort_contract sizes_fit_ab run_ab inputs_ab ts sorted_ab
  show ?thesis by (simp add: argv_d_def)
qed

subsection \<open>The results of \<^verbatim>\<open>write\<close>\<close>

text \<open>
  Claim C3, as the code has it. After each \<^verbatim>\<open>write\<close> in the copy loop: a positive return
  advances the cursor and the count by the bytes written, and the copy is complete when
  the count reaches the bytes to copy; a negative return with \<^verbatim>\<open>EINTR\<close> starts the next
  pass from the same state; a negative return with another error number ends the copy
  with failure; a return of zero starts the next pass from the same state. A call that
  returns zero or fails leaves the output file as it was.
\<close>

theorem write_result_handling:
  assumes "sys_write oc out (drop ptr base) (unat (to_copy - written)) = (ret, out')"
  shows "copy_loop (oc # ocs) base ptr to_copy written out =
           (case ret of
              Ret n \<Rightarrow>
                if n = 0 then copy_loop ocs base ptr to_copy written out
                else if written + of_nat n = to_copy then Some (True, out', ocs)
                else copy_loop ocs base (ptr + n) to_copy (written + of_nat n) out'
            | Err e \<Rightarrow>
                if e = EINTR then copy_loop ocs base ptr to_copy written out
                else Some (False, out, ocs)) \<and>
         (case ret of
            Ret n \<Rightarrow> n \<le> unat (to_copy - written) \<and> out' = store out (take n (drop ptr base))
          | Err e \<Rightarrow> out' = out)"
proof (cases oc)
  case (Fails e)
  with assms show ?thesis
    by (auto simp: sys_write_def loop_body_def)
next
  case (Accepts k)
  define bs where "bs = take (min k (unat (to_copy - written))) (drop ptr base)"
  from assms Accepts have ret: "ret = Ret (length bs)" and out': "out' = store out bs"
    by (auto simp: sys_write_def bs_def Let_def)
  have "take (length bs) (drop ptr base) = bs"
    by (simp add: bs_def min_def)
  moreover have "length bs \<le> unat (to_copy - written)"
    by (simp add: bs_def)
  moreover have "length bs = 0 \<Longrightarrow> out' = out"
    by (simp add: out' store_Nil)
  ultimately show ?thesis
    using assms by (auto simp: loop_body_def Let_def ret out')
qed

theorem write_result_handling_witness:
  "sys_write (Accepts 1) \<lparr>o_data = [], o_pos = 0\<rparr> (drop 0 [7, 8]) (unat (2 - 0 :: u64))
     = (Ret 1, \<lparr>o_data = [7], o_pos = 1\<rparr>) \<and>
   copy_loop [Accepts 1, Fails EINTR, Accepts 5] [7, 8] 0 2 0 \<lparr>o_data = [], o_pos = 0\<rparr>
     = copy_loop [Fails EINTR, Accepts 5] [7, 8] 1 2 1 \<lparr>o_data = [7], o_pos = 1\<rparr> \<and>
   copy_loop [Accepts 1, Fails EINTR, Accepts 5] [7, 8] 0 2 0 \<lparr>o_data = [], o_pos = 0\<rparr>
     = Some (True, \<lparr>o_data = [7, 8], o_pos = 2\<rparr>, [])"
proof -
  have w: "sys_write (Accepts 1) \<lparr>o_data = [], o_pos = 0\<rparr> (drop 0 [7, 8]) (unat (2 - 0 :: u64))
      = (Ret 1, \<lparr>o_data = [7], o_pos = 1\<rparr>)"
    by (simp add: sys_write_def store_def)
  from write_result_handling [OF w, of "[Fails EINTR, Accepts 5]"]
  have "copy_loop [Accepts 1, Fails EINTR, Accepts 5] [7, 8] 0 2 0 \<lparr>o_data = [], o_pos = 0\<rparr>
      = copy_loop [Fails EINTR, Accepts 5] [7, 8] 1 2 1 \<lparr>o_data = [7], o_pos = 1\<rparr>"
    by simp
  moreover have "copy_loop [Fails EINTR, Accepts 5] [7, 8] 1 2 1 \<lparr>o_data = [7], o_pos = 1\<rparr>
      = Some (True, \<lparr>o_data = [7, 8], o_pos = 2\<rparr>, [])"
    by (simp add: sys_write_def loop_body_def store_def)
  ultimately show ?thesis using w by simp
qed

text \<open>
  The claim as it is written fails: \<^verbatim>\<open>write\<close> returns zero, and the copy goes on and
  succeeds.
\<close>

theorem zero_return_does_not_fail:
  "sys_write (Accepts 0) \<lparr>o_data = [], o_pos = 0\<rparr> (drop 0 [7, 8]) (unat (2 - 0 :: u64))
     = (Ret 0, \<lparr>o_data = [], o_pos = 0\<rparr>) \<and>
   copy_loop [Accepts 0, Accepts 2] [7, 8] 0 2 0 \<lparr>o_data = [], o_pos = 0\<rparr>
     = Some (True, \<lparr>o_data = [7, 8], o_pos = 2\<rparr>, []) \<and>
   copy_file world_a [Accepts 0, Accepts 64] \<lparr>o_data = [], o_pos = 0\<rparr> ''d/a.pcap'' 41 0
     = Some (True, \<lparr>o_data = file_a, o_pos = 41\<rparr>, [])"
proof -
  have "copy_file world_a [Accepts 0, Accepts 64] \<lparr>o_data = [], o_pos = 0\<rparr> ''d/a.pcap'' 41 0
      = Some (True, \<lparr>o_data = file_a, o_pos = 41\<rparr>, [])"
    by code_simp
  then show ?thesis
    by (simp add: sys_write_def loop_body_def store_def)
qed

subsection \<open>The header probe\<close>

lemma timestamp_unat:
  fixes s u :: u32
  shows "unat (ucast s * 1000000 + ucast u :: u64) = unat s * 1000000 + unat u"
proof -
  have s: "unat s < 2 ^ 32" and u: "unat u < 2 ^ 32"
    using unsigned_less [of s] unsigned_less [of u] by simp_all
  have us: "unat (ucast s :: u64) = unat s" and uu: "unat (ucast u :: u64) = unat u"
    using s u by (simp_all add: unsigned_ucast_eq take_bit_nat_eq_self)
  from s have "unat s * 1000000 < 2 ^ 64" by simp
  then have m: "unat (ucast s * 1000000 :: u64) = unat s * 1000000"
    by (simp add: unat_word_ariths us)
  from s u have "unat s * 1000000 + unat u < 2 ^ 64" by simp
  then show ?thesis
    by (simp add: unat_word_ariths(1) m uu)
qed

lemma sys_read_full:
  "fst (sys_read ino 40) = 40 \<longleftrightarrow> sys_read ino 40 = (40, take 40 (i_data ino))"
  by (auto simp: sys_read_def Let_def min_def split: option.splits if_splits)

lemma probe_fields:
  "field 0 4 (take 40 d) = take 4 d"
  "field 4 2 (take 40 d) = take 2 (drop 4 d)"
  "field 6 2 (take 40 d) = take 2 (drop 6 d)"
  "field 0 4 (drop 24 (take 40 d)) = take 4 (drop 24 d)"
  "field 4 4 (drop 24 (take 40 d)) = take 4 (drop 28 d)"
  by (simp_all add: field_def drop_take)

text \<open>
  Claim C4. The header probe accepts a file exactly when the file can be opened, the
  \<^verbatim>\<open>read\<close> delivers the first 40 bytes in full, the 32-bit magic is \<open>0xA1B2C3D4\<close> or
  \<open>0xA1B23C4D\<close>, the major version is 2 and the minor version is 4. The timestamp is then
  the seconds times 1,000,000 plus the sub-second field as it stands, whichever the
  magic, and the sum does not wrap. A rejected file makes no difference to the scan: the
  directory loop goes on as if the entry were not there.
\<close>

theorem header_probe:
  "(get_first_timestamp w name = Some t \<longleftrightarrow>
      (\<exists>ino. w_fs w name = Some ino \<and> i_open_probe ino \<and>
         sys_read ino 40 = (40, take 40 (i_data ino)) \<and>
         (load (w_endian w) (take 4 (i_data ino)) = (0xA1B2C3D4 :: u32) \<or>
          load (w_endian w) (take 4 (i_data ino)) = (0xA1B23C4D :: u32)) \<and>
         load (w_endian w) (take 2 (drop 4 (i_data ino))) = (2 :: u16) \<and>
         load (w_endian w) (take 2 (drop 6 (i_data ino))) = (4 :: u16) \<and>
         unat t = unat (load (w_endian w) (take 4 (drop 24 (i_data ino))) :: u32) * 1000000
                  + unat (load (w_endian w) (take 4 (drop 28 (i_data ino))) :: u32))) \<and>
   (get_first_timestamp w (snprintf_path dir d_name) = None \<longrightarrow>
      scan w dir (d_name # rest) fs h n = scan w dir rest fs h n)"
proof
  show "get_first_timestamp w (snprintf_path dir d_name) = None \<longrightarrow>
      scan w dir (d_name # rest) fs h n = scan w dir rest fs h n"
    by (simp split: option.splits)
next
  let ?e = "w_endian w"
  define stamp :: "inode \<Rightarrow> u64" where
    "stamp ino = ucast (load ?e (take 4 (drop 24 (i_data ino))) :: u32) * 1000000
               + ucast (load ?e (take 4 (drop 28 (i_data ino))) :: u32)" for ino
  define valid where
    "valid ino \<longleftrightarrow> i_open_probe ino \<and> sys_read ino 40 = (40, take 40 (i_data ino)) \<and>
       (load ?e (take 4 (i_data ino)) = (0xA1B2C3D4 :: u32) \<or>
        load ?e (take 4 (i_data ino)) = (0xA1B23C4D :: u32)) \<and>
       load ?e (take 2 (drop 4 (i_data ino))) = (2 :: u16) \<and>
       load ?e (take 2 (drop 6 (i_data ino))) = (4 :: u16)" for ino
  have probe: "get_first_timestamp w name =
      (case w_fs w name of None \<Rightarrow> None
       | Some ino \<Rightarrow> if valid ino then Some (stamp ino) else None)"
  proof (cases "w_fs w name")
    case None
    then show ?thesis by (simp add: get_first_timestamp_def)
  next
    case (Some ino)
    show ?thesis
    proof (cases "i_open_probe ino \<and> fst (sys_read ino 40) = 40")
      case False
      with Some show ?thesis
        by (auto simp: get_first_timestamp_def valid_def minimum_size_def
            sizeof_pcap_file_header_def sizeof_pcap_pkthdr_def split: prod.splits)
    next
      case True
      then have rd: "sys_read ino 40 = (40, take 40 (i_data ino))"
        by (simp add: sys_read_full)
      with Some True show ?thesis
        by (simp add: get_first_timestamp_def valid_def stamp_def minimum_size_def
            sizeof_pcap_file_header_def sizeof_pcap_pkthdr_def pcap_file_header_at_def
            pcap_pkthdr_at_def probe_fields microseconds_def nanoseconds_def
            pcap_version_major_def pcap_version_minor_def Let_def)
    qed
  qed
  have stamp: "t = stamp ino \<longleftrightarrow>
      unat t = unat (load ?e (take 4 (drop 24 (i_data ino))) :: u32) * 1000000
             + unat (load ?e (take 4 (drop 28 (i_data ino))) :: u32)" for ino
    unfolding stamp_def timestamp_unat [symmetric] by (simp add: word_unat_eq_iff)
  show "get_first_timestamp w name = Some t \<longleftrightarrow>
      (\<exists>ino. w_fs w name = Some ino \<and> i_open_probe ino \<and>
         sys_read ino 40 = (40, take 40 (i_data ino)) \<and>
         (load ?e (take 4 (i_data ino)) = (0xA1B2C3D4 :: u32) \<or>
          load ?e (take 4 (i_data ino)) = (0xA1B23C4D :: u32)) \<and>
         load ?e (take 2 (drop 4 (i_data ino))) = (2 :: u16) \<and>
         load ?e (take 2 (drop 6 (i_data ino))) = (4 :: u16) \<and>
         unat t = unat (load ?e (take 4 (drop 24 (i_data ino))) :: u32) * 1000000
                  + unat (load ?e (take 4 (drop 28 (i_data ino))) :: u32))"
    unfolding probe stamp [symmetric]
    by (auto simp: valid_def split: option.splits)
qed

subsection \<open>The directory scanner\<close>

lemma tolower_lower:
  assumes "97 \<le> (of_char l :: nat)" and "(of_char l :: nat) \<le> 122"
  shows "tolower c = l \<longleftrightarrow> c = l \<or> (of_char c :: nat) + 32 = of_char l"
proof (cases "65 \<le> (of_char c :: nat) \<and> (of_char c :: nat) \<le> 90")
  case True
  then have "tolower c = char_of ((of_char c :: nat) + 32)"
    by (simp add: tolower_def)
  moreover from True have "((of_char c :: nat) + 32) mod 256 = of_char c + 32"
    by simp
  ultimately have "tolower c = l \<longleftrightarrow> (of_char c :: nat) + 32 = of_char l"
    by (simp add: char_of_eq_iff take_bit_eq_mod)
  moreover from True assms have "c \<noteq> l" by auto
  ultimately show ?thesis by simp
next
  case False
  then have "tolower c = c" by (auto simp: tolower_def)
  moreover from False assms have "(of_char c :: nat) + 32 \<noteq> of_char l" by auto
  ultimately show ?thesis by simp
qed

lemma of_char_plus_32:
  "(of_char c :: nat) + 32 = of_char (CHR ''p'') \<longleftrightarrow> c = CHR ''P''"
  "(of_char c :: nat) + 32 = of_char (CHR ''c'') \<longleftrightarrow> c = CHR ''C''"
  "(of_char c :: nat) + 32 = of_char (CHR ''a'') \<longleftrightarrow> c = CHR ''A''"
proof -
  have "(of_char c :: nat) = of_char (CHR ''P'') \<longleftrightarrow> c = CHR ''P''"
    "(of_char c :: nat) = of_char (CHR ''C'') \<longleftrightarrow> c = CHR ''C''"
    "(of_char c :: nat) = of_char (CHR ''A'') \<longleftrightarrow> c = CHR ''A''"
    by (rule of_char_eq_iff)+
  then show "(of_char c :: nat) + 32 = of_char (CHR ''p'') \<longleftrightarrow> c = CHR ''P''"
    "(of_char c :: nat) + 32 = of_char (CHR ''c'') \<longleftrightarrow> c = CHR ''C''"
    "(of_char c :: nat) + 32 = of_char (CHR ''a'') \<longleftrightarrow> c = CHR ''A''"
    by auto
qed

lemma tolower_pcap:
  "tolower c = CHR ''p'' \<longleftrightarrow> c = CHR ''p'' \<or> c = CHR ''P''"
  "tolower c = CHR ''c'' \<longleftrightarrow> c = CHR ''c'' \<or> c = CHR ''C''"
  "tolower c = CHR ''a'' \<longleftrightarrow> c = CHR ''a'' \<or> c = CHR ''A''"
  by (simp_all add: tolower_lower of_char_plus_32 [symmetric])

lemma tolower_fixed:
  "tolower (CHR ''p'') = CHR ''p''" "tolower (CHR ''c'') = CHR ''c''"
  "tolower (CHR ''a'') = CHR ''a''"
  by (simp_all add: tolower_def)

lemma strcasecmp_Cons:
  "strcasecmp (a # s1) (b # s2) = 0 \<longleftrightarrow> tolower a = tolower b \<and> strcasecmp s1 s2 = 0"
proof (cases "tolower a = tolower b")
  case True
  then show ?thesis by simp
next
  case False
  then have "(of_char (tolower a) :: nat) \<noteq> of_char (tolower b)"
    by simp
  then have "int (of_char (tolower a)) - int (of_char (tolower b)) \<noteq> 0"
    by simp
  with False show ?thesis by simp
qed

lemma strcasecmp_pcap:
  "strcasecmp [c1, c2, c3, c4] ''pcap'' = 0 \<longleftrightarrow>
     tolower c1 = CHR ''p'' \<and> tolower c2 = CHR ''c'' \<and>
     tolower c3 = CHR ''a'' \<and> tolower c4 = CHR ''p''"
  by (simp only: strcasecmp_Cons strcasecmp.simps(1) tolower_fixed) simp

lemma four_elements:
  assumes "length t = Suc (Suc (Suc (Suc 0)))"
  shows "\<exists>c1 c2 c3 c4. t = [c1, c2, c3, c4]"
  using assms by (auto simp: length_Suc_conv)

lemma last_four:
  assumes "5 < length s"
  shows "\<exists>c1 c2 c3 c4. drop (length s - 4) s = [c1, c2, c3, c4]"
proof (rule four_elements)
  from assms show "length (drop (length s - 4) s) = Suc (Suc (Suc (Suc 0)))"
    by simp
qed

text \<open>
  Claim C5. The scanner admits a directory entry exactly when \<^verbatim>\<open>stat\<close> succeeds on it and
  shows a regular file of more than 40 bytes, the name has at least 6 characters, the
  character 5 places from the end is a dot, and the last 4 characters are \<open>pcap\<close> in
  any mixture of ASCII upper and lower case.
\<close>

theorem scanner_admits:
  "candidate w pathname d_name = Some sbuf \<longleftrightarrow>
     stat w pathname = Some sbuf \<and> i_reg sbuf \<and> 40 < length (i_data sbuf) \<and>
     6 \<le> length d_name \<and>
     d_name ! (length d_name - 5) = CHR ''.'' \<and>
     (\<exists>c1 c2 c3 c4. drop (length d_name - 4) d_name = [c1, c2, c3, c4] \<and>
        c1 \<in> {CHR ''p'', CHR ''P''} \<and> c2 \<in> {CHR ''c'', CHR ''C''} \<and>
        c3 \<in> {CHR ''a'', CHR ''A''} \<and> c4 \<in> {CHR ''p'', CHR ''P''})"
proof (cases "5 < length d_name")
  case False
  then show ?thesis
    by (auto simp: candidate_def Let_def split: option.splits)
next
  case True
  from last_four [OF True] obtain c1 c2 c3 c4 where
    l4: "drop (length d_name - 4) d_name = [c1, c2, c3, c4]"
    by blast
  have "strcasecmp (drop (length d_name - 4) d_name) ''pcap'' = 0 \<longleftrightarrow>
      c1 \<in> {CHR ''p'', CHR ''P''} \<and> c2 \<in> {CHR ''c'', CHR ''C''} \<and>
      c3 \<in> {CHR ''a'', CHR ''A''} \<and> c4 \<in> {CHR ''p'', CHR ''P''}"
    unfolding l4 strcasecmp_pcap tolower_pcap by simp
  with True l4 show ?thesis
    by (auto simp: candidate_def Let_def S_ISREG_def st_size_def minimum_size_def
        sizeof_pcap_file_header_def sizeof_pcap_pkthdr_def split: option.splits)
qed

theorem header_probe_witness:
  "get_first_timestamp world_ab ''d/a.pcap'' = Some 100000005 \<and>
   unat (100000005 :: u64) = 100 * 1000000 + 5 \<and>
   get_first_timestamp world_n ''d/n.pcap'' = Some 1004999999 \<and>
   unat (1004999999 :: u64) = 5 * 1000000 + 999999999 \<and>
   get_first_timestamp world_ab (snprintf_path ''d'' ''corrupt.pcap'') = None \<and>
   scan world_ab ''d'' [''corrupt.pcap'', ''a.pcap''] files_init [] 24
     = scan world_ab ''d'' [''a.pcap''] files_init [] 24"
proof -
  have a: "get_first_timestamp world_ab ''d/a.pcap'' = Some 100000005"
    by code_simp
  have n: "get_first_timestamp world_n ''d/n.pcap'' = Some 1004999999"
    by code_simp
  have c: "get_first_timestamp world_ab (snprintf_path ''d'' ''corrupt.pcap'') = None"
    by code_simp
  from header_probe [THEN conjunct1, THEN iffD1, OF a] obtain ia where
    "w_fs world_ab ''d/a.pcap'' = Some ia"
    "unat (100000005 :: u64)
       = unat (load (w_endian world_ab) (take 4 (drop 24 (i_data ia))) :: u32) * 1000000
         + unat (load (w_endian world_ab) (take 4 (drop 28 (i_data ia))) :: u32)"
    by blast
  moreover have "w_fs world_ab ''d/a.pcap'' = Some (plain file_a)"
    by code_simp
  moreover have "load (w_endian world_ab) (take 4 (drop 24 file_a)) = (100 :: u32)"
    "load (w_endian world_ab) (take 4 (drop 28 file_a)) = (5 :: u32)"
    by code_simp+
  ultimately have ua: "unat (100000005 :: u64) = 100 * 1000000 + 5"
    by (simp add: plain_def)
  have un: "unat (1004999999 :: u64) = 5 * 1000000 + 999999999"
    by simp
  from header_probe [THEN conjunct2, THEN mp, OF c]
  have "scan world_ab ''d'' [''corrupt.pcap'', ''a.pcap''] files_init [] 24
      = scan world_ab ''d'' [''a.pcap''] files_init [] 24" .
  with a n c ua un show ?thesis by simp
qed

theorem scanner_admits_witness:
  "candidate world_ab ''d/B.PCAP'' ''B.PCAP'' = Some (plain file_b) \<and>
   candidate world_ab ''d/README.txt'' ''README.txt'' \<noteq> Some (plain file_bad)"
proof -
  have st: "stat world_ab ''d/B.PCAP'' = Some (plain file_b)"
    "stat world_ab ''d/README.txt'' = Some (plain file_bad)"
    by code_simp+
  have "stat world_ab ''d/B.PCAP'' = Some (plain file_b) \<and> i_reg (plain file_b) \<and>
     40 < length (i_data (plain file_b)) \<and> 6 \<le> length ''B.PCAP'' \<and>
     ''B.PCAP'' ! (length ''B.PCAP'' - 5) = CHR ''.'' \<and>
     (\<exists>c1 c2 c3 c4. drop (length ''B.PCAP'' - 4) ''B.PCAP'' = [c1, c2, c3, c4] \<and>
        c1 \<in> {CHR ''p'', CHR ''P''} \<and> c2 \<in> {CHR ''c'', CHR ''C''} \<and>
        c3 \<in> {CHR ''a'', CHR ''A''} \<and> c4 \<in> {CHR ''p'', CHR ''P''})"
    by (simp add: st plain_def length_files)
  from scanner_admits [THEN iffD2, OF this]
  have "candidate world_ab ''d/B.PCAP'' ''B.PCAP'' = Some (plain file_b)" .
  moreover have "candidate world_ab ''d/README.txt'' ''README.txt'' \<noteq> Some (plain file_bad)"
    by (simp add: scanner_admits)
  ultimately show ?thesis ..
qed

end
